theory Spec2Isabelle
  imports Main "HOL-Library.Word"
begin

section \<open>Values, pointers and faults\<close>

text \<open>
  The asynchronous layer keeps its data in C structures that point at each other. The
  model is a typed store: one finite map per structure type, from addresses to records.
  A C pointer is a \<open>pointer option\<close>: \<open>None\<close> is \<open>NULL\<close>, and a pointer
  says which kind of object it points to. \<open>Sentinel l\<close> is \<open>&local->requests\<close>, the
  address of the request embedded in the \<open>async_local_t\<close> at \<open>l\<close>. \<open>Wild w\<close> is an
  integer cast to a pointer: it points to no object.
\<close>

type_synonym addr = nat

datatype pointer =
    Scope addr
  | Request addr
  | Sentinel addr
  | Local addr
  | Loop addr
  | Uv_req addr
  | Resume addr
  | Wild "64 word"

text \<open>
  \<open>lh_value\<close> is \<open>long long\<close> in C, and the code casts integers and pointers into it.
  The model keeps the two apart; \<open>lh_value_null\<close> is the integer zero, which is also
  what the null pointer casts to. \<open>lh_value_ptr\<close> is the cast; the check of debug builds
  that the pointer does not point into the C stack is left out.
\<close>

datatype lh_value = Value_int "64 word" | Value_ptr pointer

definition lh_value_null :: lh_value where
  "lh_value_null = Value_int 0"

definition lh_ptr_value :: "lh_value \<Rightarrow> pointer option" where
  "lh_ptr_value v =
     (case v of
        Value_int w \<Rightarrow> (if w = 0 then None else Some (Wild w))
      | Value_ptr p \<Rightarrow> Some p)"

definition lh_value_ptr :: "pointer option \<Rightarrow> lh_value" where
  "lh_value_ptr p = (case p of None \<Rightarrow> lh_value_null | Some q \<Rightarrow> Value_ptr q)"

text \<open>\<open>lh_value_int\<close> widens an \<open>int\<close> with its sign; \<open>lh_int_value\<close> truncates. The
  numeric value of a pointer is not fixed by the model: \<open>None\<close>.\<close>

definition lh_value_int :: "32 word \<Rightarrow> lh_value" where
  "lh_value_int i = Value_int (scast i)"

definition lh_int_value :: "lh_value \<Rightarrow> 32 word option" where
  "lh_int_value v = (case v of Value_int w \<Rightarrow> Some (ucast w) | Value_ptr p \<Rightarrow> None)"

text \<open>What stops the program: a failed \<open>assert\<close> (the assertions are compiled in:
  \<open>NDEBUG\<close> is not defined), an access through a pointer that points to no live object
  of the right type, a call through a null function pointer, a yield with no handler
  installed.\<close>

datatype fault = Assert_failed | Invalid_access | Null_call | No_handler

definition assert_c :: "bool \<Rightarrow> fault + unit" where
  "assert_c b = (if b then Inr () else Inl Assert_failed)"

definition bind_f :: "fault + 'a \<Rightarrow> ('a \<Rightarrow> fault + 'b) \<Rightarrow> fault + 'b" where
  "bind_f m f = (case m of Inl e \<Rightarrow> Inl e | Inr x \<Rightarrow> f x)"

section \<open>Cancellation scopes\<close>

record cancel_scope =
  scope_parent :: "pointer option"

type_synonym scope_heap = "addr \<rightharpoonup> cancel_scope"

definition read_scope :: "scope_heap \<Rightarrow> pointer option \<Rightarrow> cancel_scope option" where
  "read_scope h p = (case p of Some (Scope a) \<Rightarrow> h a | _ \<Rightarrow> None)"

text \<open>\<open>cancel_scope()\<close> reads the ambient scope, an implicit parameter holding an
  \<open>lh_value\<close>.\<close>

definition cancel_scope :: "lh_value \<Rightarrow> pointer option" where
  "cancel_scope ambient = lh_ptr_value ambient"

text \<open>\<open>_cancel_scope_alloc\<close>: a new scope at the address \<open>a\<close> the allocator returns, whose
  parent is the ambient scope.\<close>

definition cancel_scope_alloc :: "scope_heap \<Rightarrow> lh_value \<Rightarrow> addr \<Rightarrow> lh_value \<times> scope_heap" where
  "cancel_scope_alloc h ambient a =
     (lh_value_ptr (Some (Scope a)), h(a \<mapsto> \<lparr>scope_parent = cancel_scope ambient\<rparr>))"

text \<open>\<open>in_scope_of\<close> walks the parent chain with a \<open>while\<close> loop. On a cyclic chain the
  loop does not end (\<open>None\<close>); following a pointer to no scope is a fault.\<close>

partial_function (option) in_scope_of ::
  "scope_heap \<Rightarrow> pointer option \<Rightarrow> pointer option \<Rightarrow> (fault + bool) option" where
  "in_scope_of h scope top_scope =
     (if scope \<noteq> None \<and> scope \<noteq> top_scope
      then (case read_scope h scope of
              None \<Rightarrow> Some (Inl Invalid_access)
            | Some c \<Rightarrow> in_scope_of h (scope_parent c) top_scope)
      else Some (Inr (scope = top_scope)))"

text \<open>
  The scope heaps that nested scope creation builds, with the ambient scope at each
  moment: the outermost region has the null ambient scope (\<open>with_outer_cancel_scope\<close>);
  entering a region allocates a scope under the ambient one and makes it ambient; leaving
  a region restores an earlier ambient scope, which is null or a scope of the heap.
\<close>

inductive nested_scopes :: "scope_heap \<Rightarrow> lh_value \<Rightarrow> bool" where
  outer: "nested_scopes Map.empty lh_value_null"
| enter: "nested_scopes h ambient \<Longrightarrow> a \<notin> dom h \<Longrightarrow>
          nested_scopes (snd (cancel_scope_alloc h ambient a)) (fst (cancel_scope_alloc h ambient a))"
| leave_outer: "nested_scopes h ambient \<Longrightarrow> nested_scopes h lh_value_null"
| leave: "nested_scopes h ambient \<Longrightarrow> b \<in> dom h \<Longrightarrow>
          nested_scopes h (lh_value_ptr (Some (Scope b)))"

text \<open>\<open>on_chain h s a\<close>: the scope at \<open>a\<close> is on the parent chain that starts at the scope
  at \<open>s\<close>, \<open>s\<close> itself included.\<close>

inductive on_chain :: "scope_heap \<Rightarrow> addr \<Rightarrow> addr \<Rightarrow> bool" where
  here: "s \<in> dom h \<Longrightarrow> on_chain h s s"
| up: "h s = Some c \<Longrightarrow> scope_parent c = Some (Scope p) \<Longrightarrow> on_chain h p a \<Longrightarrow> on_chain h s a"

text \<open>A ranking of a scope heap: every parent is a scope of the heap and ranks below its
  child. A ranked heap has no cycle and no dangling parent.\<close>

definition ranked :: "scope_heap \<Rightarrow> (addr \<Rightarrow> nat) \<Rightarrow> bool" where
  "ranked h rank \<longleftrightarrow>
     (\<forall>s c. h s = Some c \<longrightarrow>
        scope_parent c = None \<or>
        (\<exists>p. scope_parent c = Some (Scope p) \<and> p \<in> dom h \<and> rank p < rank s))"

section \<open>Asynchronous requests\<close>

text \<open>The resumption strategies a request can carry in \<open>resumefun\<close>: the functions
  \<open>async_resume_default\<close> and \<open>_channel_async_req_resume\<close>. A null function pointer is
  \<open>None\<close>.\<close>

datatype async_resume_fun = Async_resume_default | Channel_async_req_resume

record async_request =
  req_next :: "pointer option"
  req_prev :: "pointer option"
  req_resume :: "pointer option"
  req_local :: lh_value
  req_scope :: "pointer option"
  req_uvreq :: "pointer option"
  req_resumefun :: "async_resume_fun option"

text \<open>Of a libuv request the code uses the \<open>data\<close> field only.\<close>

record uv_req =
  uv_data :: "pointer option"

record async_local =
  local_loop :: "pointer option"
  local_requests :: async_request

text \<open>
  A trace of calls, for an engine that records what it is asked to do:
  \<open>lh_release_resume r local res\<close> resumes the continuation \<open>r\<close> with the result \<open>res\<close>,
  and \<open>_channel_async_req_resume\<close> is the strategy of the channel adapter.
\<close>

datatype event =
    Release_resume "pointer option" lh_value lh_value
  | Channel_req_resume "pointer option" lh_value "pointer option" "32 word"

record state =
  reqs :: "addr \<rightharpoonup> async_request"
  uvreqs :: "addr \<rightharpoonup> uv_req"
  locals :: "addr \<rightharpoonup> async_local"
  implicit_cancel_scope :: lh_value
  trace :: "event list"

text \<open>Memory that \<open>nodec_zalloc\<close> and \<open>calloc\<close> return is zeroed.\<close>

definition zero_request :: async_request where
  "zero_request =
     \<lparr>req_next = None, req_prev = None, req_resume = None, req_local = lh_value_null,
      req_scope = None, req_uvreq = None, req_resumefun = None\<rparr>"

subsection \<open>Reading and writing the store\<close>

definition request_at :: "state \<Rightarrow> pointer option \<Rightarrow> async_request option" where
  "request_at s p =
     (case p of
        Some (Request a) \<Rightarrow> reqs s a
      | Some (Sentinel l) \<Rightarrow> map_option local_requests (locals s l)
      | _ \<Rightarrow> None)"

definition load_request :: "state \<Rightarrow> pointer option \<Rightarrow> fault + async_request" where
  "load_request s p = (case request_at s p of None \<Rightarrow> Inl Invalid_access | Some r \<Rightarrow> Inr r)"

definition update_request ::
  "state \<Rightarrow> pointer option \<Rightarrow> (async_request \<Rightarrow> async_request) \<Rightarrow> fault + state" where
  "update_request s p f =
     (case p of
        Some (Request a) \<Rightarrow>
          (case reqs s a of
             None \<Rightarrow> Inl Invalid_access
           | Some r \<Rightarrow> Inr (s\<lparr>reqs := (reqs s)(a \<mapsto> f r)\<rparr>))
      | Some (Sentinel l) \<Rightarrow>
          (case locals s l of
             None \<Rightarrow> Inl Invalid_access
           | Some L \<Rightarrow> Inr (s\<lparr>locals := (locals s)(l \<mapsto> L\<lparr>local_requests := f (local_requests L)\<rparr>)\<rparr>))
      | _ \<Rightarrow> Inl Invalid_access)"

definition load_uvreq :: "state \<Rightarrow> pointer option \<Rightarrow> fault + uv_req" where
  "load_uvreq s p =
     (case p of
        Some (Uv_req u) \<Rightarrow> (case uvreqs s u of None \<Rightarrow> Inl Invalid_access | Some U \<Rightarrow> Inr U)
      | _ \<Rightarrow> Inl Invalid_access)"

definition set_uv_data :: "state \<Rightarrow> pointer option \<Rightarrow> pointer option \<Rightarrow> fault + state" where
  "set_uv_data s p d =
     (case p of
        Some (Uv_req u) \<Rightarrow>
          (case uvreqs s u of
             None \<Rightarrow> Inl Invalid_access
           | Some U \<Rightarrow> Inr (s\<lparr>uvreqs := (uvreqs s)(u \<mapsto> U\<lparr>uv_data := d\<rparr>)\<rparr>))
      | _ \<Rightarrow> Inl Invalid_access)"

definition load_local :: "state \<Rightarrow> pointer option \<Rightarrow> fault + async_local" where
  "load_local s p =
     (case p of
        Some (Local l) \<Rightarrow> (case locals s l of None \<Rightarrow> Inl Invalid_access | Some L \<Rightarrow> Inr L)
      | _ \<Rightarrow> Inl Invalid_access)"

text \<open>\<open>&local->requests\<close>.\<close>

definition requests_of :: "pointer option \<Rightarrow> pointer option" where
  "requests_of p = (case p of Some (Local l) \<Rightarrow> Some (Sentinel l) | _ \<Rightarrow> None)"

text \<open>\<open>free\<close>: of the null pointer it does nothing; of anything that is not a live block
  of the heap it is a fault.\<close>

definition free_request :: "state \<Rightarrow> pointer option \<Rightarrow> fault + state" where
  "free_request s p =
     (case p of
        None \<Rightarrow> Inr s
      | Some (Request a) \<Rightarrow>
          (if a \<in> dom (reqs s) then Inr (s\<lparr>reqs := (reqs s)(a := None)\<rparr>) else Inl Invalid_access)
      | _ \<Rightarrow> Inl Invalid_access)"

definition free_local :: "state \<Rightarrow> pointer option \<Rightarrow> fault + state" where
  "free_local s p =
     (case p of
        None \<Rightarrow> Inr s
      | Some (Local l) \<Rightarrow>
          (if l \<in> dom (locals s) then Inr (s\<lparr>locals := (locals s)(l := None)\<rparr>) else Inl Invalid_access)
      | _ \<Rightarrow> Inl Invalid_access)"

subsection \<open>Resuming a request\<close>

text \<open>
  Two functions that resume are not part of this code, and the model takes them as
  parameters: \<open>lh_release_resume\<close>, of the continuation engine (declared in
  \<open>libhandler.h\<close>: it resumes a first-class continuation with a result and releases it),
  and \<open>_channel_async_req_resume\<close>, the resumption strategy of the channel adapter. Each
  runs code of the resumed computation, which sees the store it is called in and may
  change it or stop the program; the value they return is not used.
\<close>

record engine =
  lh_release_resume :: "pointer option \<Rightarrow> lh_value \<Rightarrow> lh_value \<Rightarrow> state \<Rightarrow> fault + state"
  channel_async_req_resume ::
    "pointer option \<Rightarrow> lh_value \<Rightarrow> pointer option \<Rightarrow> 32 word \<Rightarrow> state \<Rightarrow> fault + state"

text \<open>
  Modelled from the spec: an engine whose resumed computations do nothing to the store;
  each call is recorded in the trace. It stands for the engine where what the resumed
  computation does is given separately, as the calls that follow.
\<close>

definition recording_engine :: engine where
  "recording_engine =
     \<lparr>lh_release_resume =
        (\<lambda>r local_v res s. Inr (s\<lparr>trace := trace s @ [Release_resume r local_v res]\<rparr>)),
      channel_async_req_resume =
        (\<lambda>r local_v req err s. Inr (s\<lparr>trace := trace s @ [Channel_req_resume r local_v req err]\<rparr>))\<rparr>"

definition async_resume_default ::
  "engine \<Rightarrow> pointer option \<Rightarrow> lh_value \<Rightarrow> pointer option \<Rightarrow> 32 word \<Rightarrow> state \<Rightarrow>
   fault + state" where
  "async_resume_default E resume local_v req err s =
     (if resume \<noteq> None then lh_release_resume E resume local_v (lh_value_int err) s
      else Inr s)"

text \<open>The call \<open>(*resumefun)(resume, local, uvreq, err)\<close>.\<close>

definition call_resumefun ::
  "engine \<Rightarrow> async_resume_fun option \<Rightarrow> pointer option \<Rightarrow> lh_value \<Rightarrow> pointer option \<Rightarrow>
   32 word \<Rightarrow> state \<Rightarrow> fault + state" where
  "call_resumefun E f resume local_v uvreq err s =
     (case f of
        None \<Rightarrow> Inl Null_call
      | Some Async_resume_default \<Rightarrow> async_resume_default E resume local_v uvreq err s
      | Some Channel_async_req_resume \<Rightarrow> channel_async_req_resume E resume local_v uvreq err s)"

text \<open>The block of \<open>async_request_resume\<close> that takes the request out of the list of
  outstanding requests. Every field is read from the store at the moment the C statement
  reads it, so that the model is right also when the pointers alias.\<close>

definition async_request_unlink :: "state \<Rightarrow> pointer option \<Rightarrow> fault + state" where
  "async_request_unlink s req =
     bind_f (load_request s req) (\<lambda>r.
       let prev = req_prev r in
       if prev \<noteq> None then
         bind_f (update_request s prev (\<lambda>q. q\<lparr>req_next := req_next r\<rparr>)) (\<lambda>s1.
         bind_f (load_request s1 req) (\<lambda>r1.
         bind_f (if req_next r1 \<noteq> None
                 then update_request s1 (req_next r1) (\<lambda>q. q\<lparr>req_prev := prev\<rparr>)
                 else Inr s1) (\<lambda>s2.
         bind_f (update_request s2 req (\<lambda>q. q\<lparr>req_next := None\<rparr>)) (\<lambda>s3.
         update_request s3 req (\<lambda>q. q\<lparr>req_prev := None\<rparr>)))))
       else Inr s)"

definition async_request_resume ::
  "engine \<Rightarrow> pointer option \<Rightarrow> pointer option \<Rightarrow> 32 word \<Rightarrow> state \<Rightarrow> fault + state" where
  "async_request_resume E req uvreq err s =
     bind_f (load_request s req) (\<lambda>r.
     bind_f (assert_c (req_uvreq r = None \<or> req_uvreq r = uvreq)) (\<lambda>_.
       if req_uvreq r \<noteq> None then
         bind_f (set_uv_data s uvreq None) (\<lambda>s1.
         bind_f (update_request s1 req (\<lambda>q. q\<lparr>req_uvreq := None\<rparr>)) (\<lambda>s2.
         bind_f (async_request_unlink s2 req) (\<lambda>s3.
         bind_f (load_request s3 req) (\<lambda>r3.
         bind_f (free_request s3 req) (\<lambda>s4.
         call_resumefun E (req_resumefun r3) (req_resume r3) (req_local r3) uvreq err s4)))))
       else Inr s))"

definition async_req_resume ::
  "engine \<Rightarrow> pointer option \<Rightarrow> 32 word \<Rightarrow> state \<Rightarrow> fault + state" where
  "async_req_resume E uvreq err s =
     bind_f (load_uvreq s uvreq) (\<lambda>U.
       if uv_data U \<noteq> None then async_request_resume E (uv_data U) uvreq err s else Inr s)"

section \<open>The continuation engine, as this code uses it\<close>

text \<open>The three operations of the effect \<open>async\<close> (\<open>LH_DEFINE_EFFECT3\<close>).\<close>

datatype lh_effect = Effect_async

datatype optag = Async_req_await | Async_uv_loop | Async_req_register

datatype lh_opkind =
    LH_OP_NULL | LH_OP_NORESUMEX | LH_OP_NORESUME | LH_OP_TAIL_NOOP
  | LH_OP_TAIL | LH_OP_SCOPED | LH_OP_GENERAL

text \<open>
  An operation function ends in one of two ways: with \<open>lh_tail_resume(r, local, res)\<close>,
  which hands \<open>res\<close> back to the yield as its last action, or by returning a value without
  resuming, which leaves the handler and keeps the yielding computation suspended in
  \<open>r\<close>. A yield, seen from the computation that yields, either returns a result or is
  suspended.
\<close>

datatype opfun_result = Tail_resume lh_value lh_value | Op_return lh_value

datatype 'a yield_result = Resumed 'a | Suspended lh_value

type_synonym yield_fun =
  "pointer option \<Rightarrow> optag \<Rightarrow> lh_value \<Rightarrow> state \<Rightarrow> fault + (lh_value yield_result \<times> state)"

text \<open>An operation function gets the yield of the handlers that enclose its own handler
  (\<open>lh_yield\<close> is a global function of the engine in C), the continuation, the handler's
  local state and the argument of the operation.\<close>

type_synonym lh_opfun =
  "yield_fun \<Rightarrow> pointer option \<Rightarrow> lh_value \<Rightarrow> lh_value \<Rightarrow> state \<Rightarrow>
   fault + (opfun_result \<times> state)"

record lh_operation =
  opkind :: lh_opkind
  optag :: "optag option"
  opfun :: "lh_opfun option"

record lh_handlerdef =
  effect :: lh_effect
  local_acquire :: "(lh_value \<Rightarrow> lh_value) option"
  local_release :: "(lh_value \<Rightarrow> state \<Rightarrow> fault + state) option"
  resultfun :: "(lh_value \<Rightarrow> lh_value \<Rightarrow> lh_value) option"
  operations :: "lh_operation list"

text \<open>
  Modelled from the spec: \<open>lh_tail_resume\<close>, of the continuation engine, declared in
  \<open>libhandler.h\<close>: the final resumption of a continuation, the last action of an
  operation function.
\<close>

definition lh_tail_resume :: "pointer option \<Rightarrow> lh_value \<Rightarrow> lh_value \<Rightarrow> opfun_result" where
  "lh_tail_resume r local_v res = Tail_resume local_v res"

text \<open>Sequencing after a yield: what follows runs only if the yield returns.\<close>

definition bind_y ::
  "fault + ('a yield_result \<times> state) \<Rightarrow> ('a \<Rightarrow> state \<Rightarrow> fault + ('b yield_result \<times> state)) \<Rightarrow>
   fault + ('b yield_result \<times> state)" where
  "bind_y m f =
     (case m of
        Inl e \<Rightarrow> Inl e
      | Inr (Suspended v, s) \<Rightarrow> Inr (Suspended v, s)
      | Inr (Resumed x, s) \<Rightarrow> f x s)"

text \<open>An operation array ends at the first entry whose function is null.\<close>

primrec find_operation :: "lh_operation list \<Rightarrow> optag \<Rightarrow> lh_operation option" where
  "find_operation [] t = None"
| "find_operation (x # xs) t =
     (if opfun x = None then None
      else if optag x = Some t then Some x
      else find_operation xs t)"

text \<open>
  Modelled from the spec: \<open>lh_yield\<close>, of the continuation engine, which is not part of
  this code. A yield goes to the nearest enclosing handler that handles the operation;
  its operation function runs with the handlers that enclose that handler. If the
  operation function tail-resumes, the yield returns the result; if it returns without
  resuming, the yielding computation stays suspended. \<open>k\<close> names the continuation the
  engine captures.
\<close>

primrec lh_yield :: "(lh_handlerdef \<times> lh_value) list \<Rightarrow> yield_fun" where
  "lh_yield [] = (\<lambda>k t arg s. Inl No_handler)"
| "lh_yield (h # hs) = (\<lambda>k t arg s.
     case find_operation (operations (fst h)) t of
       None \<Rightarrow> lh_yield hs k t arg s
     | Some x \<Rightarrow>
         (case opfun x of
            None \<Rightarrow> Inl Null_call
          | Some f \<Rightarrow>
              (case f (lh_yield hs) k (snd h) arg s of
                 Inl e \<Rightarrow> Inl e
               | Inr (Tail_resume l v, s') \<Rightarrow> Inr (Resumed v, s')
               | Inr (Op_return v, s') \<Rightarrow> Inr (Suspended v, s'))))"

subsection \<open>The operations of the effect, as the computation calls them\<close>

text \<open>\<open>LH_DEFINE_OP0(async, uv_loop, uv_loop_ptr)\<close>,
  \<open>LH_DEFINE_OP1(async, req_await, int, async_request_ptr)\<close> and
  \<open>LH_DEFINE_VOIDOP1(async, req_register, async_request_ptr)\<close>: each yields the operation
  and converts the result once the yield has returned.\<close>

definition async_uv_loop ::
  "yield_fun \<Rightarrow> pointer option \<Rightarrow> state \<Rightarrow> fault + (pointer option yield_result \<times> state)" where
  "async_uv_loop Y k s =
     bind_y (Y k Async_uv_loop lh_value_null s) (\<lambda>res s'. Inr (Resumed (lh_ptr_value res), s'))"

definition async_req_await_return :: "lh_value \<Rightarrow> 32 word option" where
  "async_req_await_return res = lh_int_value res"

definition async_req_await ::
  "yield_fun \<Rightarrow> pointer option \<Rightarrow> pointer option \<Rightarrow> state \<Rightarrow>
   fault + (32 word option yield_result \<times> state)" where
  "async_req_await Y k req s =
     bind_y (Y k Async_req_await (lh_value_ptr req) s)
       (\<lambda>res s'. Inr (Resumed (async_req_await_return res), s'))"

definition async_req_register ::
  "yield_fun \<Rightarrow> pointer option \<Rightarrow> pointer option \<Rightarrow> state \<Rightarrow>
   fault + (unit yield_result \<times> state)" where
  "async_req_register Y k req s =
     bind_y (Y k Async_req_register (lh_value_ptr req) s) (\<lambda>res s'. Inr (Resumed (), s'))"

definition async_loop ::
  "yield_fun \<Rightarrow> pointer option \<Rightarrow> state \<Rightarrow> fault + (pointer option yield_result \<times> state)" where
  "async_loop Y k s = async_uv_loop Y k s"

text \<open>\<open>async_request_alloc\<close>; \<open>a\<close> is the address \<open>nodec_zalloc\<close> returns.\<close>

definition async_request_alloc ::
  "yield_fun \<Rightarrow> pointer option \<Rightarrow> pointer option \<Rightarrow> addr \<Rightarrow> state \<Rightarrow>
   fault + (pointer option yield_result \<times> state)" where
  "async_request_alloc Y k uvreq a s =
     (let req = Some (Request a);
          s0 = s\<lparr>reqs := (reqs s)(a \<mapsto> zero_request)\<rparr> in
      bind_f (set_uv_data s0 uvreq req) (\<lambda>s1.
      bind_f (update_request s1 req (\<lambda>q. q\<lparr>req_uvreq := uvreq\<rparr>)) (\<lambda>s2.
      bind_f (update_request s2 req
                (\<lambda>q. q\<lparr>req_scope := cancel_scope (implicit_cancel_scope s2)\<rparr>)) (\<lambda>s3.
      bind_y (async_req_register Y k req s3) (\<lambda>_ s4. Inr (Resumed req, s4))))))"

definition asyncx_await ::
  "yield_fun \<Rightarrow> pointer option \<Rightarrow> pointer option \<Rightarrow> addr \<Rightarrow> state \<Rightarrow>
   fault + (32 word option yield_result \<times> state)" where
  "asyncx_await Y k uvreq a s =
     bind_y (async_request_alloc Y k uvreq a s) (\<lambda>req s'. async_req_await Y k req s')"

subsection \<open>Throwing on errors\<close>

record lh_exception =
  exn_code :: "32 word"
  exn_msg :: string

text \<open>
  Modelled from the spec: \<open>lh_exception_alloc_strdup\<close> and \<open>lh_throw\<close>, of the
  continuation engine: an exception carries a code and a copy of the message, and
  throwing it makes the failure the outcome of the caller.
\<close>

definition lh_exception_alloc_strdup :: "32 word \<Rightarrow> string \<Rightarrow> lh_exception" where
  "lh_exception_alloc_strdup code msg = \<lparr>exn_code = code, exn_msg = msg\<rparr>"

definition lh_throw :: "lh_exception \<Rightarrow> lh_exception + unit" where
  "lh_throw e = Inl e"

text \<open>\<open>check_uv_err\<close>; \<open>uv_strerror\<close> is libuv's table of error strings.\<close>

definition check_uv_err :: "(32 word \<Rightarrow> string) \<Rightarrow> 32 word \<Rightarrow> lh_exception + unit" where
  "check_uv_err uv_strerror uverr =
     (if sint uverr < 0 then lh_throw (lh_exception_alloc_strdup uverr (uv_strerror uverr))
      else Inr ())"

text \<open>\<open>async_await\<close>: once \<open>asyncx_await\<close> has returned, its result goes to
  \<open>check_uv_err\<close>. The outcome is the exception thrown, or nothing.\<close>

definition async_await ::
  "(32 word \<Rightarrow> string) \<Rightarrow> yield_fun \<Rightarrow> pointer option \<Rightarrow> pointer option \<Rightarrow> addr \<Rightarrow> state \<Rightarrow>
   fault + ((lh_exception + unit) option yield_result \<times> state)" where
  "async_await uv_strerror Y k req a s =
     bind_y (asyncx_await Y k req a s)
       (\<lambda>uverr s'. Inr (Resumed (map_option (check_uv_err uv_strerror) uverr), s'))"

section \<open>The main async handler\<close>

text \<open>\<open>_async_req_await\<close>: await an asynchronous request.\<close>

definition async_req_await_opfun :: lh_opfun where
  "async_req_await_opfun Y resume local_v arg s =
     (let req = lh_ptr_value arg in
      bind_f (assert_c (req \<noteq> None)) (\<lambda>_.
      bind_f (load_request s req) (\<lambda>r.
      bind_f (assert_c (req_uvreq r \<noteq> None)) (\<lambda>_.
      bind_f (load_uvreq s (req_uvreq r)) (\<lambda>U.
      bind_f (assert_c (uv_data U = req)) (\<lambda>_.
      bind_f (update_request s req (\<lambda>q. q\<lparr>req_local := local_v\<rparr>)) (\<lambda>s1.
      bind_f (update_request s1 req (\<lambda>q. q\<lparr>req_resume := resume\<rparr>)) (\<lambda>s2.
      bind_f (load_request s2 req) (\<lambda>r2.
      bind_f (if req_resumefun r2 = None
              then update_request s2 req (\<lambda>q. q\<lparr>req_resumefun := Some Async_resume_default\<rparr>)
              else Inr s2) (\<lambda>s3.
      Inr (Op_return lh_value_null, s3)))))))))))"

text \<open>\<open>_async_uv_loop\<close>: return the current libuv event loop.\<close>

definition async_uv_loop_opfun :: lh_opfun where
  "async_uv_loop_opfun Y r local_v arg s =
     (let local_p = lh_ptr_value local_v in
      bind_f (load_local s local_p) (\<lambda>L.
      Inr (lh_tail_resume r local_v (lh_value_ptr (local_loop L)), s)))"

text \<open>\<open>_async_req_register\<close>: register an outstanding request, in front.\<close>

definition async_req_register_opfun :: lh_opfun where
  "async_req_register_opfun Y r local_v arg s =
     (let local_p = lh_ptr_value local_v;
          req = lh_ptr_value arg in
      bind_f (assert_c (req \<noteq> None)) (\<lambda>_.
      bind_f (load_local s local_p) (\<lambda>L.
      bind_f (update_request s req (\<lambda>q. q\<lparr>req_next := req_next (local_requests L)\<rparr>)) (\<lambda>s1.
      bind_f (load_request s1 req) (\<lambda>r1.
      bind_f (if req_next r1 \<noteq> None
              then update_request s1 (req_next r1) (\<lambda>q. q\<lparr>req_prev := req\<rparr>)
              else Inr s1) (\<lambda>s2.
      bind_f (update_request s2 req (\<lambda>q. q\<lparr>req_prev := requests_of local_p\<rparr>)) (\<lambda>s3.
      bind_f (update_request s3 (requests_of local_p) (\<lambda>q. q\<lparr>req_next := req\<rparr>)) (\<lambda>s4.
      Inr (lh_tail_resume r local_v lh_value_null, s4)))))))))"

text \<open>\<open>_async_release\<close>: the release function of the handler's local state.\<close>

definition async_release :: "lh_value \<Rightarrow> state \<Rightarrow> fault + state" where
  "async_release local_v s =
     (let local_p = lh_ptr_value local_v in
      bind_f (assert_c (local_p \<noteq> None)) (\<lambda>_.
      bind_f (load_local s local_p) (\<lambda>L.
      bind_f (assert_c (req_next (local_requests L) = None)) (\<lambda>_.
      free_local s local_p))))"

definition async_ops :: "lh_operation list" where
  "async_ops =
     [\<lparr>opkind = LH_OP_GENERAL, optag = Some Async_req_await, opfun = Some async_req_await_opfun\<rparr>,
      \<lparr>opkind = LH_OP_TAIL_NOOP, optag = Some Async_uv_loop, opfun = Some async_uv_loop_opfun\<rparr>,
      \<lparr>opkind = LH_OP_TAIL_NOOP, optag = Some Async_req_register,
       opfun = Some async_req_register_opfun\<rparr>,
      \<lparr>opkind = LH_OP_NULL, optag = None, opfun = None\<rparr>]"

definition async_def :: lh_handlerdef where
  "async_def =
     \<lparr>effect = Effect_async, local_acquire = None, local_release = Some async_release,
      resultfun = None, operations = async_ops\<rparr>"

text \<open>How a handled action ends: it completes with a value, it fails with an exception
  that propagates through the handler, or an operation function returned without
  resuming and the action stays suspended.\<close>

datatype completion = Completed lh_value | Failed lh_exception | Exited lh_value

type_synonym lh_actionfun =
  "(lh_handlerdef \<times> lh_value) list \<Rightarrow> lh_value \<Rightarrow> state \<Rightarrow> fault + (completion \<times> state)"

text \<open>
  Modelled from the spec: \<open>lh_handle\<close>, of the continuation engine, which is not part of
  this code. It runs the action under the handler; when the action completes, normally
  or by a failure, it releases the handler's local state with the release function of the
  definition; a null result function passes the result unchanged. While the action is
  suspended the local state stays.
\<close>

definition lh_handle ::
  "(lh_handlerdef \<times> lh_value) list \<Rightarrow> lh_handlerdef \<Rightarrow> lh_value \<Rightarrow> lh_actionfun \<Rightarrow> lh_value \<Rightarrow>
   state \<Rightarrow> fault + (completion \<times> state)" where
  "lh_handle hs hdef local_v body arg s =
     (case body ((hdef, local_v) # hs) arg s of
        Inl e \<Rightarrow> Inl e
      | Inr (Exited v, s') \<Rightarrow> Inr (Exited v, s')
      | Inr (c, s') \<Rightarrow>
          (case local_release hdef of
             None \<Rightarrow> Inr (c, s')
           | Some release \<Rightarrow>
               (case release local_v s' of
                  Inl e \<Rightarrow> Inl e
                | Inr s'' \<Rightarrow>
                    Inr (case (c, resultfun hdef) of
                           (Completed v, Some f) \<Rightarrow> Completed (f local_v v)
                         | _ \<Rightarrow> c, s''))))"

text \<open>The local state that \<open>async_handler\<close> sets up in the block \<open>calloc\<close> returned.\<close>

definition async_local_init :: "pointer option \<Rightarrow> async_local" where
  "async_local_init loop =
     (let L0 = \<lparr>local_loop = None, local_requests = zero_request\<rparr>;
          L1 = L0\<lparr>local_loop := loop\<rparr>;
          L2 = L1\<lparr>local_requests := (local_requests L1)\<lparr>req_next := None\<rparr>\<rparr>
      in L2\<lparr>local_requests := (local_requests L2)\<lparr>req_prev := None\<rparr>\<rparr>)"

text \<open>\<open>async_handler\<close>; \<open>calloc_result\<close> is what \<open>calloc\<close> returns: \<open>None\<close> when the
  allocation fails, the address of the block otherwise.\<close>

definition async_handler ::
  "(lh_handlerdef \<times> lh_value) list \<Rightarrow> addr option \<Rightarrow> pointer option \<Rightarrow> lh_actionfun \<Rightarrow>
   lh_value \<Rightarrow> state \<Rightarrow> fault + (completion \<times> state)" where
  "async_handler hs calloc_result loop action arg s =
     (case calloc_result of
        None \<Rightarrow> Inr (Completed lh_value_null, s)
      | Some l \<Rightarrow>
          lh_handle hs async_def (lh_value_ptr (Some (Local l))) action arg
            (s\<lparr>locals := (locals s)(l \<mapsto> async_local_init loop)\<rparr>))"

section \<open>The channel async handler for interleave\<close>

text \<open>\<open>_channel_async_req_await\<close>.\<close>

definition channel_async_req_await :: lh_opfun where
  "channel_async_req_await Y r local_v arg s =
     (let req = lh_ptr_value arg in
      bind_f (assert_c (req \<noteq> None)) (\<lambda>_.
      bind_f (load_request s req) (\<lambda>r0.
      bind_f (assert_c (req_uvreq r0 \<noteq> None)) (\<lambda>_.
      bind_f (load_uvreq s (req_uvreq r0)) (\<lambda>U.
      bind_f (assert_c (uv_data U = req)) (\<lambda>_.
      bind_f (update_request s req (\<lambda>q. q\<lparr>req_resume := r\<rparr>)) (\<lambda>s1.
      bind_f (update_request s1 req (\<lambda>q. q\<lparr>req_local := local_v\<rparr>)) (\<lambda>s2.
      bind_f (load_request s2 req) (\<lambda>r2.
      bind_f (if req_resumefun r2 = None
              then update_request s2 req (\<lambda>q. q\<lparr>req_resumefun := Some Channel_async_req_resume\<rparr>)
              else Inr s2) (\<lambda>s3.
      Inr (Op_return lh_value_null, s3)))))))))))"

text \<open>\<open>_channel_async_uv_loop\<close> and \<open>_channel_async_req_register\<close> pass through to the
  parent: they yield the operation again, to the handlers that enclose the adapter. If
  the parent does not resume, the operation function does not get to resume either.\<close>

definition channel_async_uv_loop :: lh_opfun where
  "channel_async_uv_loop Y r local_v arg s =
     (case async_loop Y r s of
        Inl e \<Rightarrow> Inl e
      | Inr (Suspended v, s') \<Rightarrow> Inr (Op_return v, s')
      | Inr (Resumed p, s') \<Rightarrow> Inr (lh_tail_resume r local_v (lh_value_ptr p), s'))"

definition channel_async_req_register :: lh_opfun where
  "channel_async_req_register Y r local_v arg s =
     (case async_req_register Y r (lh_ptr_value arg) s of
        Inl e \<Rightarrow> Inl e
      | Inr (Suspended v, s') \<Rightarrow> Inr (Op_return v, s')
      | Inr (Resumed u, s') \<Rightarrow> Inr (lh_tail_resume r local_v lh_value_null, s'))"

definition channel_async_ops :: "lh_operation list" where
  "channel_async_ops =
     [\<lparr>opkind = LH_OP_GENERAL, optag = Some Async_req_await,
       opfun = Some channel_async_req_await\<rparr>,
      \<lparr>opkind = LH_OP_TAIL, optag = Some Async_uv_loop, opfun = Some channel_async_uv_loop\<rparr>,
      \<lparr>opkind = LH_OP_TAIL, optag = Some Async_req_register,
       opfun = Some channel_async_req_register\<rparr>,
      \<lparr>opkind = LH_OP_NULL, optag = None, opfun = None\<rparr>]"

definition channel_async_hdef :: lh_handlerdef where
  "channel_async_hdef =
     \<lparr>effect = Effect_async, local_acquire = None, local_release = None,
      resultfun = None, operations = channel_async_ops\<rparr>"

section \<open>Sequences of awaits and completions\<close>

text \<open>
  \<open>Begin_await u a k\<close>: the computation calls \<open>asyncx_await\<close> on the libuv request at \<open>u\<close>;
  the allocator returns the address \<open>a\<close> for the new request and the engine captures the
  continuation \<open>k\<close>. \<open>Complete_operation u err\<close>: the completion callback of the libuv
  request at \<open>u\<close> calls \<open>async_req_resume\<close> with the status \<open>err\<close>. What a resumed
  computation does is the calls that follow in the sequence, so the engine here is the
  recording one.
\<close>

datatype call = Begin_await addr addr addr | Complete_operation addr "32 word"

definition exec_call :: "yield_fun \<Rightarrow> call \<Rightarrow> state \<Rightarrow> fault + state" where
  "exec_call Y c s =
     (case c of
        Begin_await u a k \<Rightarrow>
          (case asyncx_await Y (Some (Resume k)) (Some (Uv_req u)) a s of
             Inl e \<Rightarrow> Inl e
           | Inr (res, s') \<Rightarrow> Inr s')
      | Complete_operation u err \<Rightarrow>
          async_req_resume recording_engine (Some (Uv_req u)) err s)"

primrec run_calls :: "yield_fun \<Rightarrow> call list \<Rightarrow> state \<Rightarrow> fault + state" where
  "run_calls Y [] s = Inr s"
| "run_calls Y (c # cs) s = bind_f (exec_call Y c s) (run_calls Y cs)"

text \<open>
  The registry as the specification describes it: the requests begun and not yet
  completed, most recent first, and for each operation the request attached to it. A
  completion takes out the request attached to the operation, if there is one.
\<close>

type_synonym pending = "addr list \<times> (addr \<rightharpoonup> addr)"

definition spec_call :: "call \<Rightarrow> pending \<Rightarrow> pending" where
  "spec_call c P =
     (case c of
        Begin_await u a k \<Rightarrow> (a # fst P, (snd P)(u \<mapsto> a))
      | Complete_operation u err \<Rightarrow>
          (case snd P u of
             None \<Rightarrow> P
           | Some a \<Rightarrow> (removeAll a (fst P), (snd P)(u := None))))"

definition spec_calls :: "call list \<Rightarrow> pending \<Rightarrow> pending" where
  "spec_calls cs P = fold spec_call cs P"

text \<open>The calls the environment can make: every operation is a libuv request of the
  store (\<open>U\<close>), and the allocator returns a block that is not in use.\<close>

fun valid_calls :: "addr set \<Rightarrow> call list \<Rightarrow> pending \<Rightarrow> bool" where
  "valid_calls U [] P = True"
| "valid_calls U (c # cs) P =
     ((case c of
         Begin_await u a k \<Rightarrow> u \<in> U \<and> a \<notin> set (fst P)
       | Complete_operation u err \<Rightarrow> u \<in> U)
      \<and> valid_calls U cs (spec_call c P))"

text \<open>
  \<open>seg s pr p qs m\<close>: following \<open>next\<close> from \<open>p\<close> visits exactly the nodes \<open>qs\<close>, in this
  order, and arrives at \<open>m\<close>; the \<open>prev\<close> of the first node is \<open>pr\<close> and the \<open>prev\<close> of
  every other node is the node before it. \<open>dll\<close> is a whole list: it ends at the null
  pointer.
\<close>

primrec seg ::
  "state \<Rightarrow> pointer option \<Rightarrow> pointer option \<Rightarrow> pointer list \<Rightarrow> pointer option \<Rightarrow> bool" where
  "seg s pr p [] m = (p = m)"
| "seg s pr p (q # qs) m =
     (p = Some q \<and>
      (case request_at s p of
         None \<Rightarrow> False
       | Some r \<Rightarrow> req_prev r = pr \<and> seg s p (req_next r) qs m))"

definition dll :: "state \<Rightarrow> pointer option \<Rightarrow> pointer option \<Rightarrow> pointer list \<Rightarrow> bool" where
  "dll s pr p qs = seg s pr p qs None"

text \<open>The registry of the handler whose local state is at \<open>l\<close> holds the requests at the
  addresses \<open>P\<close>: the list that starts at the sentinel is the sentinel, then \<open>P\<close>.\<close>

definition registry :: "state \<Rightarrow> addr \<Rightarrow> addr list \<Rightarrow> bool" where
  "registry s l P = dll s None (Some (Sentinel l)) (Sentinel l # map Request P)"

text \<open>A store in which no request is outstanding.\<close>

definition idle :: "state \<Rightarrow> bool" where
  "idle s \<longleftrightarrow> reqs s = Map.empty \<and> (\<forall>u U. uvreqs s u = Some U \<longrightarrow> uv_data U = None)"

text \<open>The store in which \<open>async_handler\<close> starts the action.\<close>

definition installed :: "addr \<Rightarrow> pointer option \<Rightarrow> state \<Rightarrow> state" where
  "installed l loop s = s\<lparr>locals := (locals s)(l \<mapsto> async_local_init loop)\<rparr>"

text \<open>The root handler alone on the handler stack, with its local state at \<open>l\<close>.\<close>

definition root_yield :: "addr \<Rightarrow> yield_fun" where
  "root_yield l = lh_yield [(async_def, lh_value_ptr (Some (Local l)))]"

text \<open>What the operations on requests leave alone.\<close>

definition frame :: "state \<Rightarrow> state \<Rightarrow> bool" where
  "frame s s' \<longleftrightarrow>
     uvreqs s' = uvreqs s \<and> trace s' = trace s \<and>
     implicit_cancel_scope s' = implicit_cancel_scope s \<and>
     dom (reqs s') = dom (reqs s) \<and> dom (locals s') = dom (locals s) \<and>
     (\<forall>l. map_option local_loop (locals s' l) = map_option local_loop (locals s l))"

text \<open>The fields of a request other than its two links.\<close>

definition payload ::
  "async_request \<Rightarrow> pointer option \<times> lh_value \<times> pointer option \<times> pointer option \<times>
     async_resume_fun option" where
  "payload r = (req_resume r, req_local r, req_scope r, req_uvreq r, req_resumefun r)"

text \<open>
  The invariant of a run under one root handler, between the store and the registry of
  the specification: the list at the sentinel is the pending list, which has no
  repetition and holds every live request; the \<open>data\<close> field of each libuv request is
  the request attached to it; an attached request points back to its libuv request and
  has a resumption strategy.
\<close>

definition registry_inv :: "addr \<Rightarrow> state \<Rightarrow> pending \<Rightarrow> bool" where
  "registry_inv l s P \<longleftrightarrow>
     registry s l (fst P) \<and> distinct (fst P) \<and> dom (reqs s) = set (fst P) \<and>
     (\<forall>u. case uvreqs s u of
             None \<Rightarrow> True
           | Some U \<Rightarrow> uv_data U = map_option Request (snd P u)) \<and>
     (\<forall>u a. snd P u = Some a \<longrightarrow>
        (\<exists>r. reqs s a = Some r \<and> req_uvreq r = Some (Uv_req u) \<and> req_resumefun r \<noteq> None))"

section \<open>Example stores\<close>

text \<open>A store with one request, attached to the libuv request at 7 and not yet awaited.\<close>

definition ex_store :: state where
  "ex_store =
     \<lparr>reqs = [3 \<mapsto> zero_request\<lparr>req_uvreq := Some (Uv_req 7)\<rparr>],
      uvreqs = [7 \<mapsto> \<lparr>uv_data = Some (Request 3)\<rparr>],
      locals = Map.empty, implicit_cancel_scope = lh_value_null, trace = []\<rparr>"

text \<open>A store with a root handler whose local state is at 4 and one awaited request in
  its registry, and a store with two libuv requests and nothing else.\<close>

definition ex_pending :: state where
  "ex_pending =
     \<lparr>reqs = [3 \<mapsto> zero_request\<lparr>req_prev := Some (Sentinel 4), req_resume := Some (Resume 5),
                  req_local := Value_ptr (Local 4), req_uvreq := Some (Uv_req 7),
                  req_resumefun := Some Async_resume_default\<rparr>],
      uvreqs = [7 \<mapsto> \<lparr>uv_data = Some (Request 3)\<rparr>],
      locals = [4 \<mapsto> \<lparr>local_loop = Some (Loop 2),
                        local_requests = zero_request\<lparr>req_next := Some (Request 3)\<rparr>\<rparr>],
      implicit_cancel_scope = lh_value_null, trace = []\<rparr>"

definition ex_idle :: state where
  "ex_idle =
     \<lparr>reqs = Map.empty, uvreqs = [7 \<mapsto> \<lparr>uv_data = None\<rparr>, 8 \<mapsto> \<lparr>uv_data = None\<rparr>],
      locals = Map.empty, implicit_cancel_scope = lh_value_null, trace = []\<rparr>"

text \<open>The two links of a request.\<close>

definition links :: "async_request \<Rightarrow> pointer option \<times> pointer option" where
  "links r = (req_next r, req_prev r)"

text \<open>A step that changes nothing but links of requests.\<close>

definition links_only :: "state \<Rightarrow> state \<Rightarrow> bool" where
  "links_only s s' \<longleftrightarrow>
     frame s s' \<and>
     (\<forall>q. map_option payload (request_at s' q) = map_option payload (request_at s q))"

text \<open>The links of the node a pointer points to, and the pointer to the first node of a
  list of nodes.\<close>

definition links_at :: "state \<Rightarrow> pointer \<Rightarrow> (pointer option \<times> pointer option) option" where
  "links_at s q = map_option links (request_at s (Some q))"

definition head_ptr :: "pointer list \<Rightarrow> pointer option" where
  "head_ptr qs = (case qs of [] \<Rightarrow> None | q # _ \<Rightarrow> Some q)"

section \<open>Basic facts\<close>

lemma bind_f_simps [simp]:
  "bind_f (Inl e) f = Inl e" "bind_f (Inr x) f = f x"
  by (simp_all add: bind_f_def)

lemma assert_c_simps [simp]: "assert_c True = Inr ()" "assert_c False = Inl Assert_failed"
  by (simp_all add: assert_c_def)

lemma lh_ptr_value_ptr [simp]: "lh_ptr_value (lh_value_ptr p) = p"
  by (cases p) (simp_all add: lh_ptr_value_def lh_value_ptr_def lh_value_null_def)

text \<open>An \<open>int\<close> widened to \<open>long long\<close> and truncated again is the same \<open>int\<close>.\<close>

lemma lh_int_value_int: "lh_int_value (lh_value_int err) = Some err"
proof -
  have "ucast (scast err :: 64 word) = err"
    by (rule bit_word_eqI) (simp add: bit_simps)
  then show ?thesis
    by (simp add: lh_int_value_def lh_value_int_def)
qed

section \<open>Allocation failure in \<open>async_handler\<close>\<close>

text \<open>
  C9. If \<open>calloc\<close> fails, \<open>async_handler\<close> returns \<open>lh_value_null\<close> at once. The result
  and the store are the same whatever the action, its argument, the loop and the handler
  stack are, and \<open>lh_handle\<close> is not called: the action does not run and no handler is
  installed. Only when \<open>calloc\<close> succeeds does \<open>async_handler\<close> set up the local state
  and hand the action to \<open>lh_handle\<close>.
\<close>

theorem async_handler_alloc_failure:
  "async_handler hs None loop action arg s = Inr (Completed lh_value_null, s) \<and>
   async_handler hs None loop action arg s = async_handler hs' None loop' action' arg' s \<and>
   async_handler hs (Some l) loop action arg s =
     lh_handle hs async_def (lh_value_ptr (Some (Local l))) action arg (installed l loop s)"
proof -
  have failed: "async_handler hs0 None loop0 action0 arg0 s = Inr (Completed lh_value_null, s)"
    for hs0 loop0 action0 arg0
    by (simp add: async_handler_def)
  have allocated: "async_handler hs (Some l) loop action arg s =
     lh_handle hs async_def (lh_value_ptr (Some (Local l))) action arg (installed l loop s)"
    by (simp add: async_handler_def installed_def)
  from failed allocated show ?thesis by simp
qed

theorem async_handler_alloc_failure_witness:
  "async_handler [] None (Some (Loop 1)) (\<lambda>hs arg s. Inl Assert_failed) (Value_int 7)
     \<lparr>reqs = Map.empty, uvreqs = Map.empty, locals = Map.empty,
      implicit_cancel_scope = lh_value_null, trace = []\<rparr> =
   Inr (Completed (Value_int 0),
     \<lparr>reqs = Map.empty, uvreqs = Map.empty, locals = Map.empty,
      implicit_cancel_scope = lh_value_null, trace = []\<rparr>)"
  using async_handler_alloc_failure
    [of "[]" "Some (Loop 1)" "\<lambda>hs arg s. Inl Assert_failed" "Value_int 7"
        "\<lparr>reqs = Map.empty, uvreqs = Map.empty, locals = Map.empty,
          implicit_cancel_scope = lh_value_null, trace = []\<rparr>"]
  by (simp add: lh_value_null_def)

section \<open>Scope containment\<close>

lemma nested_scopes_ambient:
  "nested_scopes h ambient \<Longrightarrow>
     cancel_scope ambient = None \<or> (\<exists>b \<in> dom h. cancel_scope ambient = Some (Scope b))"
  by (induction rule: nested_scopes.induct)
     (auto simp: cancel_scope_def lh_ptr_value_def lh_value_null_def lh_value_ptr_def
        cancel_scope_alloc_def)

lemma nested_scopes_ranked: "nested_scopes h ambient \<Longrightarrow> \<exists>rank. ranked h rank"
proof (induction rule: nested_scopes.induct)
  case outer
  show ?case by (simp add: ranked_def)
next
  case (enter h ambient a)
  then obtain rank where r: "ranked h rank" by blast
  define par where "par = cancel_scope ambient"
  have amb: "par = None \<or> (\<exists>b \<in> dom h. par = Some (Scope b))"
    unfolding par_def using enter.hyps(1) by (rule nested_scopes_ambient)
  define rank' where
    "rank' = rank(a := (case par of Some (Scope b) \<Rightarrow> Suc (rank b) | _ \<Rightarrow> 0))"
  have "ranked (h(a \<mapsto> \<lparr>scope_parent = par\<rparr>)) rank'"
    unfolding ranked_def
  proof (intro allI impI)
    fix s c
    assume sc: "(h(a \<mapsto> \<lparr>scope_parent = par\<rparr>)) s = Some c"
    show "scope_parent c = None \<or>
          (\<exists>p. scope_parent c = Some (Scope p) \<and> p \<in> dom (h(a \<mapsto> \<lparr>scope_parent = par\<rparr>))
               \<and> rank' p < rank' s)"
    proof (cases "s = a")
      case True
      with sc have c: "scope_parent c = par" by auto
      from amb show ?thesis
      proof
        assume "par = None" with c show ?thesis by simp
      next
        assume "\<exists>b \<in> dom h. par = Some (Scope b)"
        then obtain b where b: "b \<in> dom h" "par = Some (Scope b)" by blast
        with enter.hyps(2) have "b \<noteq> a" by auto
        with b c True show ?thesis by (auto simp: rank'_def)
      qed
    next
      case False
      with sc have hs: "h s = Some c" by simp
      with r have "scope_parent c = None \<or>
        (\<exists>p. scope_parent c = Some (Scope p) \<and> p \<in> dom h \<and> rank p < rank s)"
        unfolding ranked_def by blast
      then show ?thesis
      proof
        assume "scope_parent c = None" then show ?thesis by simp
      next
        assume "\<exists>p. scope_parent c = Some (Scope p) \<and> p \<in> dom h \<and> rank p < rank s"
        then obtain p where p: "scope_parent c = Some (Scope p)" "p \<in> dom h" "rank p < rank s"
          by blast
        with enter.hyps(2) have "p \<noteq> a" by auto
        with p False show ?thesis by (auto simp: rank'_def)
      qed
    qed
  qed
  then have "\<exists>rank. ranked (h(a \<mapsto> \<lparr>scope_parent = par\<rparr>)) rank" by blast
  then show ?case unfolding cancel_scope_alloc_def par_def snd_conv .
qed auto

lemma on_chain_step:
  "h s = Some c \<Longrightarrow> a \<noteq> s \<Longrightarrow>
     on_chain h s a \<longleftrightarrow> (\<exists>p. scope_parent c = Some (Scope p) \<and> on_chain h p a)"
  by (auto elim: on_chain.cases intro: on_chain.up)

lemma in_scope_of_ranked:
  assumes r: "ranked h rank"
  shows "s \<in> dom h \<Longrightarrow>
     in_scope_of h (Some (Scope s)) t =
       Some (Inr (t = None \<or> (\<exists>a. t = Some (Scope a) \<and> on_chain h s a)))"
proof (induction "rank s" arbitrary: s rule: less_induct)
  case less
  from less.prems obtain c where c: "h s = Some c" by auto
  show ?case
  proof (cases "t = Some (Scope s)")
    case True
    with less.prems show ?thesis
      by (subst in_scope_of.simps) (auto intro: on_chain.here)
  next
    case False
    from r c have "scope_parent c = None \<or>
        (\<exists>p. scope_parent c = Some (Scope p) \<and> p \<in> dom h \<and> rank p < rank s)"
      unfolding ranked_def by blast
    then show ?thesis
    proof
      assume n: "scope_parent c = None"
      have "in_scope_of h None t = Some (Inr (None = t))"
        by (subst in_scope_of.simps) simp
      moreover have "(\<exists>a. t = Some (Scope a) \<and> on_chain h s a) = False"
        using False c n by (auto simp: on_chain_step)
      ultimately show ?thesis using False c n
        by (subst in_scope_of.simps) (auto simp: read_scope_def)
    next
      assume "\<exists>p. scope_parent c = Some (Scope p) \<and> p \<in> dom h \<and> rank p < rank s"
      then obtain p where p: "scope_parent c = Some (Scope p)" "p \<in> dom h" "rank p < rank s"
        by blast
      have "(\<exists>a. t = Some (Scope a) \<and> on_chain h s a) =
            (\<exists>a. t = Some (Scope a) \<and> on_chain h p a)"
        using False c p by (auto simp: on_chain_step)
      with less.hyps [OF p(3) p(2)] False c p show ?thesis
        by (subst in_scope_of.simps) (simp add: read_scope_def)
    qed
  qed
qed

text \<open>
  C3. In a scope heap built by nested scope creation, for scopes \<open>s\<close> and \<open>a\<close> of the
  heap, \<open>in_scope_of\<close> returns, and it returns true exactly when \<open>a\<close> is on the parent
  chain that starts at \<open>s\<close>, \<open>s\<close> included; when the chain is exhausted without meeting
  \<open>a\<close> it returns false.
\<close>

theorem in_scope_of_iff_on_chain:
  assumes "nested_scopes h ambient" and "s \<in> dom h" and "a \<in> dom h"
  shows "in_scope_of h (Some (Scope s)) (Some (Scope a)) = Some (Inr (on_chain h s a))"
proof -
  from assms(1) obtain rank where "ranked h rank" using nested_scopes_ranked by blast
  from in_scope_of_ranked [OF this assms(2)] show ?thesis by simp
qed

lemma in_scope_of_null:
  assumes "nested_scopes h ambient" and "s = None \<or> (\<exists>b \<in> dom h. s = Some (Scope b))"
  shows "in_scope_of h s None = Some (Inr True)"
proof -
  from assms(1) obtain rank where r: "ranked h rank" using nested_scopes_ranked by blast
  from assms(2) show ?thesis
  proof
    assume "s = None" then show ?thesis by (subst in_scope_of.simps) simp
  next
    assume "\<exists>b \<in> dom h. s = Some (Scope b)"
    then obtain b where "b \<in> dom h" "s = Some (Scope b)" by blast
    with in_scope_of_ranked [OF r, of b None] show ?thesis by simp
  qed
qed

text \<open>
  C10. In a scope heap built by nested scope creation, \<open>in_scope_of\<close> with the null
  pointer as the top scope returns true for every scope of the heap and for the null
  scope: every scope is judged a descendant of the null root scope. In particular it
  returns true for the ambient scope, which is the scope \<open>async_request_alloc\<close> stores
  in a new request.
\<close>

theorem in_scope_of_null_top:
  assumes "nested_scopes h ambient" and "s = None \<or> (\<exists>b \<in> dom h. s = Some (Scope b))"
  shows "in_scope_of h s None = Some (Inr True) \<and>
    in_scope_of h (cancel_scope ambient) None = Some (Inr True)"
  using in_scope_of_null [OF assms] in_scope_of_null [OF assms(1) nested_scopes_ambient [OF assms(1)]]
  by simp


lemma nested_scopes_example:  "nested_scopes
     [0 \<mapsto> \<lparr>scope_parent = None\<rparr>, 1 \<mapsto> \<lparr>scope_parent = Some (Scope 0)\<rparr>,
      2 \<mapsto> \<lparr>scope_parent = Some (Scope 0)\<rparr>] (Value_ptr (Scope 2))"
proof -
  have a: "nested_scopes [0 \<mapsto> \<lparr>scope_parent = None\<rparr>] (Value_ptr (Scope 0))"
    using nested_scopes.enter [OF nested_scopes.outer, of 0]
    by (simp add: cancel_scope_alloc_def cancel_scope_def lh_ptr_value_def lh_value_ptr_def
        lh_value_null_def)
  have b: "nested_scopes [0 \<mapsto> \<lparr>scope_parent = None\<rparr>, 1 \<mapsto> \<lparr>scope_parent = Some (Scope 0)\<rparr>]
      (Value_ptr (Scope 1))"
    using nested_scopes.enter [OF a, of 1]
    by (simp add: cancel_scope_alloc_def cancel_scope_def lh_ptr_value_def lh_value_ptr_def)
  have c: "nested_scopes [0 \<mapsto> \<lparr>scope_parent = None\<rparr>, 1 \<mapsto> \<lparr>scope_parent = Some (Scope 0)\<rparr>]
      (Value_ptr (Scope 0))"
    using nested_scopes.leave [OF b, of 0] by (simp add: lh_value_ptr_def)
  show ?thesis
    using nested_scopes.enter [OF c, of 2]
    by (simp add: cancel_scope_alloc_def cancel_scope_def lh_ptr_value_def lh_value_ptr_def)
qed

theorem in_scope_of_iff_on_chain_witness:
  "in_scope_of
     [0 \<mapsto> \<lparr>scope_parent = None\<rparr>, 1 \<mapsto> \<lparr>scope_parent = Some (Scope 0)\<rparr>,
      2 \<mapsto> \<lparr>scope_parent = Some (Scope 0)\<rparr>] (Some (Scope 1)) (Some (Scope 0)) = Some (Inr True) \<and>
   in_scope_of
     [0 \<mapsto> \<lparr>scope_parent = None\<rparr>, 1 \<mapsto> \<lparr>scope_parent = Some (Scope 0)\<rparr>,
      2 \<mapsto> \<lparr>scope_parent = Some (Scope 0)\<rparr>] (Some (Scope 1)) (Some (Scope 2)) = Some (Inr False)"
proof -
  let ?h = "[0 \<mapsto> \<lparr>scope_parent = None\<rparr>, 1 \<mapsto> \<lparr>scope_parent = Some (Scope 0)\<rparr>,
      2 \<mapsto> \<lparr>scope_parent = Some (Scope 0)\<rparr>] :: scope_heap"
  have yes: "on_chain ?h 1 0"
    by (rule on_chain.up [where p = 0 and c = "\<lparr>scope_parent = Some (Scope 0)\<rparr>"])
       (simp_all add: on_chain.here)
  have no0: "\<not> on_chain ?h 0 2"
    using on_chain_step [of ?h 0 "\<lparr>scope_parent = None\<rparr>" 2] by simp
  have no: "\<not> on_chain ?h 1 2"
    using on_chain_step [of ?h 1 "\<lparr>scope_parent = Some (Scope 0)\<rparr>" 2] no0 by simp
  from in_scope_of_iff_on_chain [OF nested_scopes_example, of 1 0] in_scope_of_iff_on_chain [OF nested_scopes_example, of 1 2] yes no
  show ?thesis by simp
qed

theorem in_scope_of_null_top_witness:
  "in_scope_of
     [0 \<mapsto> \<lparr>scope_parent = None\<rparr>, 1 \<mapsto> \<lparr>scope_parent = Some (Scope 0)\<rparr>,
      2 \<mapsto> \<lparr>scope_parent = Some (Scope 0)\<rparr>] (Some (Scope 1)) None = Some (Inr True) \<and>
   in_scope_of
     [0 \<mapsto> \<lparr>scope_parent = None\<rparr>, 1 \<mapsto> \<lparr>scope_parent = Some (Scope 0)\<rparr>,
      2 \<mapsto> \<lparr>scope_parent = Some (Scope 0)\<rparr>] None None = Some (Inr True)"
  using in_scope_of_null_top [OF nested_scopes_example, of "Some (Scope 1)"] in_scope_of_null_top [OF nested_scopes_example, of None]
  by simp

section \<open>The store under updates\<close>

lemma frame_refl [simp]: "frame s s"
  by (simp add: frame_def)

lemma frame_trans: "frame s s' \<Longrightarrow> frame s' s'' \<Longrightarrow> frame s s''"
  by (simp add: frame_def)

lemma request_at_null [simp]: "request_at s None = None"
  by (simp add: request_at_def)

lemma load_request_eq [simp]: "request_at s p = Some r \<Longrightarrow> load_request s p = Inr r"
  by (simp add: load_request_def)

lemma load_request_none [simp]: "request_at s p = None \<Longrightarrow> load_request s p = Inl Invalid_access"
  by (simp add: load_request_def)

lemma update_request_none [simp]:
  "request_at s p = None \<Longrightarrow> update_request s p f = Inl Invalid_access"
  by (auto simp: request_at_def update_request_def split: option.splits pointer.splits)

lemma update_requestE:
  assumes "request_at s p = Some r"
  obtains s' where "update_request s p f = Inr s'"
    and "request_at s' = (request_at s)(p \<mapsto> f r)" and "frame s s'"
proof (cases p)
  case None
  with assms show ?thesis by (simp add: request_at_def)
next
  case (Some q)
  show ?thesis
  proof (cases q)
    case (Request a)
    with Some assms have r: "reqs s a = Some r" by (simp add: request_at_def)
    let ?s' = "s\<lparr>reqs := (reqs s)(a \<mapsto> f r)\<rparr>"
    have 1: "update_request s p f = Inr ?s'"
      using Some Request r by (simp add: update_request_def)
    have 2: "request_at ?s' = (request_at s)(p \<mapsto> f r)"
      using Some Request
      by (auto simp: request_at_def fun_eq_iff split: option.splits pointer.splits)
    have 3: "frame s ?s'"
      using r by (auto simp: frame_def)
    from 1 2 3 show ?thesis by (rule that)
  next
    case (Sentinel l)
    with Some assms obtain L where L: "locals s l = Some L" "local_requests L = r"
      by (auto simp: request_at_def)
    let ?s' = "s\<lparr>locals := (locals s)(l \<mapsto> L\<lparr>local_requests := f (local_requests L)\<rparr>)\<rparr>"
    have 1: "update_request s p f = Inr ?s'"
      using Some Sentinel L by (simp add: update_request_def)
    have 2: "request_at ?s' = (request_at s)(p \<mapsto> f r)"
      using Some Sentinel L
      by (auto simp: request_at_def fun_eq_iff split: option.splits pointer.splits)
    have 3: "frame s ?s'"
      using L by (auto simp: frame_def)
    from 1 2 3 show ?thesis by (rule that)
  qed (use Some assms in \<open>simp_all add: request_at_def\<close>)
qed

lemma async_req_await_opfun_stores:
  assumes r0: "request_at s (lh_ptr_value arg) = Some r0"
    and uv: "req_uvreq r0 = Some (Uv_req u)" "uvreqs s u = Some U" "uv_data U = lh_ptr_value arg"
  shows "\<exists>s'. async_req_await_opfun Y k local_v arg s = Inr (Op_return lh_value_null, s') \<and>
      frame s s' \<and>
      request_at s' = (request_at s)(lh_ptr_value arg \<mapsto>
        r0\<lparr>req_local := local_v, req_resume := k,
           req_resumefun := Some (case req_resumefun r0 of None \<Rightarrow> Async_resume_default
                                  | Some f \<Rightarrow> f)\<rparr>)"
proof -
  let ?req = "lh_ptr_value arg"
  from r0 have nn: "?req \<noteq> None" by (cases "?req") simp_all
  obtain s1 where s1: "update_request s ?req (\<lambda>q. q\<lparr>req_local := local_v\<rparr>) = Inr s1"
    "request_at s1 = (request_at s)(?req \<mapsto> r0\<lparr>req_local := local_v\<rparr>)" "frame s s1"
    using update_requestE [OF r0] by blast
  from s1(2) have r1: "request_at s1 ?req = Some (r0\<lparr>req_local := local_v\<rparr>)" by simp
  obtain s2 where s2: "update_request s1 ?req (\<lambda>q. q\<lparr>req_resume := k\<rparr>) = Inr s2"
    "request_at s2 = (request_at s1)(?req \<mapsto> r0\<lparr>req_local := local_v, req_resume := k\<rparr>)"
    "frame s1 s2"
    using update_requestE [OF r1, of "\<lambda>q. q\<lparr>req_resume := k\<rparr>"] by auto
  from s2(2) have r2: "request_at s2 ?req = Some (r0\<lparr>req_local := local_v, req_resume := k\<rparr>)"
    by simp
  have pre: "async_req_await_opfun Y k local_v arg s =
      bind_f (if req_resumefun r0 = None
              then update_request s2 ?req (\<lambda>q. q\<lparr>req_resumefun := Some Async_resume_default\<rparr>)
              else Inr s2) (\<lambda>s3. Inr (Op_return lh_value_null, s3))"
    using nn r0 uv s1(1) s2(1) r2
    by (simp add: async_req_await_opfun_def load_uvreq_def)
  show ?thesis
  proof (cases "req_resumefun r0")
    case None
    obtain s3 where s3:
      "update_request s2 ?req (\<lambda>q. q\<lparr>req_resumefun := Some Async_resume_default\<rparr>) = Inr s3"
      "request_at s3 = (request_at s2)(?req \<mapsto>
         r0\<lparr>req_local := local_v, req_resume := k, req_resumefun := Some Async_resume_default\<rparr>)"
      "frame s2 s3"
      using update_requestE [OF r2, of "\<lambda>q. q\<lparr>req_resumefun := Some Async_resume_default\<rparr>"]
      by auto
    from s1(3) s2(3) s3(3) have "frame s s3" by (blast intro: frame_trans)
    with pre None s3 s2(2) s1(2) show ?thesis by simp
  next
    case (Some f)
    from s1(3) s2(3) have fr: "frame s s2" by (blast intro: frame_trans)
    have eq: "r0\<lparr>req_local := local_v, req_resume := k\<rparr> =
       r0\<lparr>req_local := local_v, req_resume := k, req_resumefun := Some f\<rparr>"
      using Some by simp
    show ?thesis using pre Some s2(2) s1(2) fr by (simp add: eq [symmetric])
  qed
qed


lemma channel_async_req_await_stores:
  assumes r0: "request_at s (lh_ptr_value arg) = Some r0"
    and uv: "req_uvreq r0 = Some (Uv_req u)" "uvreqs s u = Some U" "uv_data U = lh_ptr_value arg"
  shows "\<exists>s'. channel_async_req_await Y k local_v arg s = Inr (Op_return lh_value_null, s') \<and>
      frame s s' \<and>
      request_at s' = (request_at s)(lh_ptr_value arg \<mapsto>
        r0\<lparr>req_local := local_v, req_resume := k,
           req_resumefun := Some (case req_resumefun r0 of None \<Rightarrow> Channel_async_req_resume
                                  | Some f \<Rightarrow> f)\<rparr>)"
proof -
  let ?req = "lh_ptr_value arg"
  from r0 have nn: "?req \<noteq> None" by (cases "?req") simp_all
  obtain s1 where s1: "update_request s ?req (\<lambda>q. q\<lparr>req_resume := k\<rparr>) = Inr s1"
    "request_at s1 = (request_at s)(?req \<mapsto> r0\<lparr>req_resume := k\<rparr>)" "frame s s1"
    using update_requestE [OF r0] by blast
  from s1(2) have r1: "request_at s1 ?req = Some (r0\<lparr>req_resume := k\<rparr>)" by simp
  obtain s2 where s2: "update_request s1 ?req (\<lambda>q. q\<lparr>req_local := local_v\<rparr>) = Inr s2"
    "request_at s2 = (request_at s1)(?req \<mapsto> r0\<lparr>req_resume := k, req_local := local_v\<rparr>)"
    "frame s1 s2"
    using update_requestE [OF r1, of "\<lambda>q. q\<lparr>req_local := local_v\<rparr>"] by auto
  from s2(2) have r2: "request_at s2 ?req = Some (r0\<lparr>req_resume := k, req_local := local_v\<rparr>)"
    by simp
  have pre: "channel_async_req_await Y k local_v arg s =
      bind_f (if req_resumefun r0 = None
              then update_request s2 ?req (\<lambda>q. q\<lparr>req_resumefun := Some Channel_async_req_resume\<rparr>)
              else Inr s2) (\<lambda>s3. Inr (Op_return lh_value_null, s3))"
    using nn r0 uv s1(1) s2(1) r2
    by (simp add: channel_async_req_await_def load_uvreq_def)
  show ?thesis
  proof (cases "req_resumefun r0")
    case None
    obtain s3 where s3:
      "update_request s2 ?req (\<lambda>q. q\<lparr>req_resumefun := Some Channel_async_req_resume\<rparr>) = Inr s3"
      "request_at s3 = (request_at s2)(?req \<mapsto>
         r0\<lparr>req_resume := k, req_local := local_v, req_resumefun := Some Channel_async_req_resume\<rparr>)"
      "frame s2 s3"
      using update_requestE [OF r2, of "\<lambda>q. q\<lparr>req_resumefun := Some Channel_async_req_resume\<rparr>"]
      by auto
    from s1(3) s2(3) s3(3) have fr: "frame s s3" by (blast intro: frame_trans)
    have eq: "r0\<lparr>req_resume := k, req_local := local_v,
         req_resumefun := Some Channel_async_req_resume\<rparr> =
       r0\<lparr>req_local := local_v, req_resume := k,
         req_resumefun := Some Channel_async_req_resume\<rparr>"
      by (cases r0) simp
    show ?thesis using pre None s3 s2(2) s1(2) fr by (simp add: eq)
  next
    case (Some f)
    from s1(3) s2(3) have fr: "frame s s2" by (blast intro: frame_trans)
    have eq: "r0\<lparr>req_resume := k, req_local := local_v\<rparr> =
       r0\<lparr>req_local := local_v, req_resume := k, req_resumefun := Some f\<rparr>"
      using Some by simp
    show ?thesis using pre Some s2(2) s1(2) fr by (simp add: eq [symmetric])
  qed
qed

text \<open>
  C6. When a request reaches the await operation with the checks of the operation function
  satisfied (the request is live, it points to a live libuv request, whose \<open>data\<close> field
  points back), the operation function, of the root handler and of the channel adapter
  alike, stores the continuation and the local value into the request, sets the
  resumption strategy only if the request has none (the default strategy in the root
  handler, the channel strategy in the adapter), leaves everything else as it is, the trace
  included, and returns \<open>lh_value_null\<close> without resuming.
\<close>

theorem await_stores_continuation:
  assumes "request_at s (lh_ptr_value arg) = Some r0"
    and "req_uvreq r0 = Some (Uv_req u)" and "uvreqs s u = Some U"
    and "uv_data U = lh_ptr_value arg"
  shows "(\<exists>s'. async_req_await_opfun Y k local_v arg s = Inr (Op_return lh_value_null, s') \<and>
      frame s s' \<and>
      request_at s' = (request_at s)(lh_ptr_value arg \<mapsto>
        r0\<lparr>req_local := local_v, req_resume := k,
           req_resumefun := Some (case req_resumefun r0 of None \<Rightarrow> Async_resume_default
                                  | Some f \<Rightarrow> f)\<rparr>)) \<and>
    (\<exists>s'. channel_async_req_await Y k local_v arg s = Inr (Op_return lh_value_null, s') \<and>
      frame s s' \<and>
      request_at s' = (request_at s)(lh_ptr_value arg \<mapsto>
        r0\<lparr>req_local := local_v, req_resume := k,
           req_resumefun := Some (case req_resumefun r0 of None \<Rightarrow> Channel_async_req_resume
                                  | Some f \<Rightarrow> f)\<rparr>))"
  using async_req_await_opfun_stores [OF assms] channel_async_req_await_stores [OF assms]
  by blast

theorem await_stores_continuation_witness:
  "(\<exists>s'. async_req_await_opfun (lh_yield []) (Some (Resume 5)) (Value_ptr (Local 9))
           (Value_ptr (Request 3)) ex_store = Inr (Op_return lh_value_null, s') \<and>
         trace s' = [] \<and>
         map_option payload (request_at s' (Some (Request 3))) =
           Some (Some (Resume 5), Value_ptr (Local 9), None, Some (Uv_req 7),
                 Some Async_resume_default)) \<and>
   (\<exists>s'. channel_async_req_await (lh_yield []) (Some (Resume 5)) (Value_ptr (Local 9))
           (Value_ptr (Request 3)) ex_store = Inr (Op_return lh_value_null, s') \<and>
         trace s' = [] \<and>
         map_option payload (request_at s' (Some (Request 3))) =
           Some (Some (Resume 5), Value_ptr (Local 9), None, Some (Uv_req 7),
                 Some Channel_async_req_resume))"
proof -
  let ?r = "zero_request\<lparr>req_uvreq := Some (Uv_req 7)\<rparr>"
  have a: "request_at ex_store (lh_ptr_value (Value_ptr (Request 3))) = Some ?r"
    by (simp add: ex_store_def request_at_def lh_ptr_value_def)
  have b: "req_uvreq ?r = Some (Uv_req 7)" by simp
  have c: "uvreqs ex_store 7 = Some \<lparr>uv_data = Some (Request 3)\<rparr>"
    by (simp add: ex_store_def)
  have d: "uv_data \<lparr>uv_data = Some (Request 3)\<rparr> = lh_ptr_value (Value_ptr (Request 3))"
    by (simp add: lh_ptr_value_def)
  have t: "trace ex_store = []" by (simp add: ex_store_def)
  have p: "lh_ptr_value (Value_ptr (Request 3)) = Some (Request 3)"
    by (simp add: lh_ptr_value_def)
  from await_stores_continuation [OF a b c d, of "lh_yield []" "Some (Resume 5)"
      "Value_ptr (Local 9)"] t
  show ?thesis
    unfolding p by (auto simp: frame_def payload_def zero_request_def)
qed

section \<open>The operations of the root handler\<close>

lemma find_async_ops:
  "find_operation async_ops Async_req_await =
     Some \<lparr>opkind = LH_OP_GENERAL, optag = Some Async_req_await, opfun = Some async_req_await_opfun\<rparr>"
  "find_operation async_ops Async_uv_loop =
     Some \<lparr>opkind = LH_OP_TAIL_NOOP, optag = Some Async_uv_loop, opfun = Some async_uv_loop_opfun\<rparr>"
  "find_operation async_ops Async_req_register =
     Some \<lparr>opkind = LH_OP_TAIL_NOOP, optag = Some Async_req_register,
           opfun = Some async_req_register_opfun\<rparr>"
  by (simp_all add: async_ops_def)

lemma find_channel_async_ops:
  "find_operation channel_async_ops Async_req_await =
     Some \<lparr>opkind = LH_OP_GENERAL, optag = Some Async_req_await,
           opfun = Some channel_async_req_await\<rparr>"
  "find_operation channel_async_ops Async_uv_loop =
     Some \<lparr>opkind = LH_OP_TAIL, optag = Some Async_uv_loop, opfun = Some channel_async_uv_loop\<rparr>"
  "find_operation channel_async_ops Async_req_register =
     Some \<lparr>opkind = LH_OP_TAIL, optag = Some Async_req_register,
           opfun = Some channel_async_req_register\<rparr>"
  by (simp_all add: channel_async_ops_def)

lemma bind_f_Inr_iff: "bind_f m f = Inr y \<longleftrightarrow> (\<exists>x. m = Inr x \<and> f x = Inr y)"
  by (cases m) simp_all

lemma async_uv_loop_opfun_resumes:
  "async_uv_loop_opfun Y r local_v arg s \<noteq> Inr (Op_return v, s')"
  by (auto simp: async_uv_loop_opfun_def Let_def bind_f_Inr_iff lh_tail_resume_def)

lemma async_req_register_opfun_resumes:
  "async_req_register_opfun Y r local_v arg s \<noteq> Inr (Op_return v, s')"
  by (auto simp: async_req_register_opfun_def Let_def bind_f_Inr_iff lh_tail_resume_def)

lemma async_req_await_opfun_suspends:
  "async_req_await_opfun Y r local_v arg s \<noteq> Inr (Tail_resume lv v, s')"
  by (auto simp: async_req_await_opfun_def Let_def bind_f_Inr_iff)

lemma root_yield_uv_loop:
  "lh_yield ((async_def, lv) # hs) k Async_uv_loop arg s =
     (case load_local s (lh_ptr_value lv) of
        Inl e \<Rightarrow> Inl e
      | Inr L \<Rightarrow> Inr (Resumed (lh_value_ptr (local_loop L)), s))"
  by (simp add: async_def_def find_async_ops async_uv_loop_opfun_def lh_tail_resume_def
      split: sum.splits)

lemma root_yield_req_register:
  "lh_yield ((async_def, lv) # hs) k Async_req_register arg s =
     (case async_req_register_opfun (lh_yield hs) k lv arg s of
        Inl e \<Rightarrow> Inl e
      | Inr (res, s') \<Rightarrow> Inr (Resumed lh_value_null, s'))"
proof (cases "async_req_register_opfun (lh_yield hs) k lv arg s")
  case (Inl e)
  then show ?thesis by (simp add: async_def_def find_async_ops)
next
  case (Inr x)
  obtain res s' where x: "x = (res, s')" by (cases x)
  have "\<exists>l. res = Tail_resume l lh_value_null"
    using Inr x
    by (auto simp: async_req_register_opfun_def Let_def bind_f_Inr_iff lh_tail_resume_def)
  with Inr x show ?thesis by (auto simp: async_def_def find_async_ops)
qed

lemma async_req_register_opfun_arg:
  "async_req_register_opfun Y k lv (lh_value_ptr (lh_ptr_value arg)) s =
   async_req_register_opfun Y' k lv arg s"
  by (simp add: async_req_register_opfun_def)

text \<open>
  C8. Of the three operations of the root handler only await suspends. The table declares
  the loop query and the registration \<open>LH_OP_TAIL_NOOP\<close> and await \<open>LH_OP_GENERAL\<close>;
  the operation functions of the loop query and of the registration never return without
  a tail resume, and the one of await never tail-resumes. The loop query tail-resumes with
  the loop stored in the local state and leaves the store as it is; after installation
  that loop is the one \<open>async_handler\<close> was given.
\<close>

theorem only_await_suspends:
  "map_option opkind (find_operation async_ops Async_req_await) = Some LH_OP_GENERAL \<and>
   map_option opkind (find_operation async_ops Async_uv_loop) = Some LH_OP_TAIL_NOOP \<and>
   map_option opkind (find_operation async_ops Async_req_register) = Some LH_OP_TAIL_NOOP \<and>
   (\<forall>v s'. async_uv_loop_opfun Y r local_v arg s \<noteq> Inr (Op_return v, s')) \<and>
   (\<forall>v s'. async_req_register_opfun Y r local_v arg s \<noteq> Inr (Op_return v, s')) \<and>
   (\<forall>lv v s'. async_req_await_opfun Y r local_v arg s \<noteq> Inr (Tail_resume lv v, s')) \<and>
   (locals s l = Some L \<longrightarrow>
      async_uv_loop_opfun Y r (lh_value_ptr (Some (Local l))) arg s =
        Inr (Tail_resume (lh_value_ptr (Some (Local l))) (lh_value_ptr (local_loop L)), s)) \<and>
   root_yield l k Async_uv_loop arg (installed l loop s) =
     Inr (Resumed (lh_value_ptr loop), installed l loop s)"
proof -
  have a: "locals s l = Some L \<longrightarrow>
      async_uv_loop_opfun Y r (lh_value_ptr (Some (Local l))) arg s =
        Inr (Tail_resume (lh_value_ptr (Some (Local l))) (lh_value_ptr (local_loop L)), s)"
    by (simp add: async_uv_loop_opfun_def load_local_def lh_tail_resume_def)
  have b: "root_yield l k Async_uv_loop arg (installed l loop s) =
     Inr (Resumed (lh_value_ptr loop), installed l loop s)"
    unfolding root_yield_def root_yield_uv_loop
    by (simp add: load_local_def installed_def async_local_init_def)
  show ?thesis
    using a b async_uv_loop_opfun_resumes async_req_register_opfun_resumes
      async_req_await_opfun_suspends
    by (simp add: find_async_ops)
qed

lemma registry_ex_pending: "registry ex_pending 4 [3]"
  by (simp add: registry_def dll_def ex_pending_def request_at_def zero_request_def)

lemma registry_installed_idle: "registry (installed 4 (Some (Loop 2)) ex_idle) 4 []"
  by (simp add: registry_def dll_def installed_def request_at_def async_local_init_def
      zero_request_def)

theorem only_await_suspends_witness:
  "async_uv_loop_opfun (lh_yield []) (Some (Resume 5)) (Value_ptr (Local 4)) lh_value_null
     ex_pending = Inr (Tail_resume (Value_ptr (Local 4)) (Value_ptr (Loop 2)), ex_pending) \<and>
   root_yield 4 (Some (Resume 5)) Async_uv_loop lh_value_null (installed 4 (Some (Loop 2)) ex_idle) =
     Inr (Resumed (Value_ptr (Loop 2)), installed 4 (Some (Loop 2)) ex_idle)"
  using only_await_suspends [of "lh_yield []" "Some (Resume 5)" "Value_ptr (Local 4)"
      lh_value_null ex_pending 4
      "\<lparr>local_loop = Some (Loop 2), local_requests = zero_request\<lparr>req_next := Some (Request 3)\<rparr>\<rparr>"
      "Some (Resume 5)" "Some (Loop 2)"]
    only_await_suspends [of "lh_yield []" "Some (Resume 5)" "Value_ptr (Local 4)"
      lh_value_null ex_idle 4 _ "Some (Resume 5)" "Some (Loop 2)"]
  by (simp add: lh_value_ptr_def ex_pending_def)

section \<open>The channel adapter passes through\<close>

lemma channel_yield_uv_loop:
  "lh_yield ((channel_async_hdef, c) # rest) k Async_uv_loop arg s =
     (case lh_yield rest k Async_uv_loop lh_value_null s of
        Inl e \<Rightarrow> Inl e
      | Inr (Resumed v, s') \<Rightarrow> Inr (Resumed (lh_value_ptr (lh_ptr_value v)), s')
      | Inr (Suspended v, s') \<Rightarrow> Inr (Suspended v, s'))"
  by (simp add: channel_async_hdef_def find_channel_async_ops channel_async_uv_loop_def
      async_loop_def async_uv_loop_def bind_y_def lh_tail_resume_def
      split: sum.splits prod.splits yield_result.splits)

lemma channel_yield_req_register:
  "lh_yield ((channel_async_hdef, c) # rest) k Async_req_register arg s =
     (case lh_yield rest k Async_req_register (lh_value_ptr (lh_ptr_value arg)) s of
        Inl e \<Rightarrow> Inl e
      | Inr (Resumed v, s') \<Rightarrow> Inr (Resumed lh_value_null, s')
      | Inr (Suspended v, s') \<Rightarrow> Inr (Suspended v, s'))"
  by (simp add: channel_async_hdef_def find_channel_async_ops channel_async_req_register_def
      async_req_register_def bind_y_def lh_tail_resume_def
      split: sum.splits prod.splits yield_result.splits)

lemma root_yield_req_register_arg:
  "lh_yield ((async_def, lv) # hs) k Async_req_register (lh_value_ptr (lh_ptr_value arg)) s =
   lh_yield ((async_def, lv) # hs) k Async_req_register arg s"
  by (simp only: root_yield_req_register async_req_register_opfun_arg [of _ _ _ _ _ "lh_yield hs"])

lemma adapters_pass_uv_loop:
  "lh_yield (map (Pair channel_async_hdef) cs @ (async_def, lv) # hs) k Async_uv_loop arg s =
   lh_yield ((async_def, lv) # hs) k Async_uv_loop arg' s"
proof (induction cs arbitrary: arg)
  case Nil
  show ?case by (simp only: root_yield_uv_loop list.map append_Nil)
next
  case (Cons c cs)
  let ?rest = "map (Pair channel_async_hdef) cs @ (async_def, lv) # hs"
  have "lh_yield ((channel_async_hdef, c) # ?rest) k Async_uv_loop arg s =
        lh_yield ((async_def, lv) # hs) k Async_uv_loop arg' s"
    by (simp only: channel_yield_uv_loop Cons.IH [of lh_value_null])
       (simp add: root_yield_uv_loop del: lh_yield.simps split: sum.splits)
  then show ?case by simp
qed

lemma adapters_pass_req_register:
  "lh_yield (map (Pair channel_async_hdef) cs @ (async_def, lv) # hs) k Async_req_register arg s =
   lh_yield ((async_def, lv) # hs) k Async_req_register arg s"
proof (induction cs arbitrary: arg)
  case Nil
  show ?case by simp
next
  case (Cons c cs)
  let ?rest = "map (Pair channel_async_hdef) cs @ (async_def, lv) # hs"
  have "lh_yield ((channel_async_hdef, c) # ?rest) k Async_req_register arg s =
        lh_yield ((async_def, lv) # hs) k Async_req_register arg s"
    by (simp only: channel_yield_req_register Cons.IH root_yield_req_register_arg)
       (simp add: root_yield_req_register del: lh_yield.simps split: sum.splits prod.splits)
  then show ?case by simp
qed

text \<open>
  C7. Under channel adapters nested inside a root handler, the loop query and the
  registration give the yielding computation the same result and the same store as the
  root handler gives directly: the adapter's operation functions yield the operation
  again to the enclosing handlers and tail-resume with the answer.
\<close>

theorem adapter_pass_through:
  "lh_yield (map (Pair channel_async_hdef) cs @ (async_def, lv) # hs) k Async_uv_loop arg s =
     lh_yield ((async_def, lv) # hs) k Async_uv_loop arg s \<and>
   lh_yield (map (Pair channel_async_hdef) cs @ (async_def, lv) # hs) k Async_req_register arg s =
     lh_yield ((async_def, lv) # hs) k Async_req_register arg s"
  using adapters_pass_uv_loop adapters_pass_req_register by blast

theorem adapter_pass_through_witness:
  "lh_yield [(channel_async_hdef, Value_int 0), (async_def, Value_ptr (Local 4))]
     (Some (Resume 5)) Async_uv_loop lh_value_null ex_pending =
     Inr (Resumed (Value_ptr (Loop 2)), ex_pending) \<and>
   lh_yield [(channel_async_hdef, Value_int 0), (async_def, Value_ptr (Local 4))]
     (Some (Resume 5)) Async_req_register lh_value_null ex_pending = Inl Assert_failed"
proof -
  have u: "lh_yield [(async_def, Value_ptr (Local 4))] (Some (Resume 5)) Async_uv_loop
      lh_value_null ex_pending = Inr (Resumed (Value_ptr (Loop 2)), ex_pending)"
    by (simp only: root_yield_uv_loop)
       (simp add: load_local_def lh_ptr_value_def lh_value_ptr_def ex_pending_def)
  have r: "lh_yield [(async_def, Value_ptr (Local 4))] (Some (Resume 5)) Async_req_register
      lh_value_null ex_pending = Inl Assert_failed"
    by (simp only: root_yield_req_register)
       (simp add: async_req_register_opfun_def lh_ptr_value_def lh_value_null_def)
  from adapter_pass_through [of "[Value_int 0]" "Value_ptr (Local 4)" "[]" "Some (Resume 5)"
      lh_value_null ex_pending] u r
  show ?thesis by simp
qed

section \<open>Releasing the local state of the handler\<close>

lemma registry_sentinel:
  assumes "registry s l P"
  shows "\<exists>L. locals s l = Some L \<and> (req_next (local_requests L) = None \<longleftrightarrow> P = [])"
proof -
  from assms obtain r where r: "request_at s (Some (Sentinel l)) = Some r"
    and sg: "seg s (Some (Sentinel l)) (req_next r) (map Request P) None"
    by (auto simp: registry_def dll_def split: option.splits)
  from r obtain L where L: "locals s l = Some L" "local_requests L = r"
    by (auto simp: request_at_def)
  from sg have "req_next r = None \<longleftrightarrow> P = []" by (cases P) auto
  with L show ?thesis by simp
qed

lemma async_release_registry:
  assumes "registry s l P"
  shows "async_release (lh_value_ptr (Some (Local l))) s =
     (if P = [] then Inr (s\<lparr>locals := (locals s)(l := None)\<rparr>) else Inl Assert_failed)"
proof -
  from registry_sentinel [OF assms] obtain L where
    L: "locals s l = Some L" "req_next (local_requests L) = None \<longleftrightarrow> P = []" by auto
  then show ?thesis
    by (auto simp: async_release_def load_local_def free_local_def)
qed

text \<open>
  C4. The handler definition names \<open>_async_release\<close> as the release function of the local
  state, so it runs when the action of the root handler completes, with a value or with a
  failure. It asserts that the registry is empty: with no pending request the local state
  is freed and the completion is passed on; with a pending request the assertion fails.
\<close>

theorem release_requires_empty_registry:
  assumes "body ((async_def, lh_value_ptr (Some (Local l))) # hs) arg s = Inr (c, s')"
    and "c = Completed v \<or> c = Failed e"
    and "registry s' l P"
  shows "local_release async_def = Some async_release \<and>
    async_release (lh_value_ptr (Some (Local l))) s' =
      (if P = [] then Inr (s'\<lparr>locals := (locals s')(l := None)\<rparr>) else Inl Assert_failed) \<and>
    lh_handle hs async_def (lh_value_ptr (Some (Local l))) body arg s =
      (if P = [] then Inr (c, s'\<lparr>locals := (locals s')(l := None)\<rparr>) else Inl Assert_failed)"
proof -
  have "lh_handle hs async_def (lh_value_ptr (Some (Local l))) body arg s =
      (if P = [] then Inr (c, s'\<lparr>locals := (locals s')(l := None)\<rparr>) else Inl Assert_failed)"
    using assms(1,2) async_release_registry [OF assms(3)]
    by (auto simp: lh_handle_def async_def_def)
  with async_release_registry [OF assms(3)] show ?thesis
    by (simp add: async_def_def)
qed

theorem release_requires_empty_registry_witness:
  "lh_handle [] async_def (Value_ptr (Local 4)) (\<lambda>hs arg s. Inr (Completed (Value_int 9), s))
     lh_value_null (installed 4 (Some (Loop 2)) ex_idle) = Inr (Completed (Value_int 9), ex_idle) \<and>
   lh_handle [] async_def (Value_ptr (Local 4))
     (\<lambda>hs arg s. Inr (Failed \<lparr>exn_code = - 4, exn_msg = ''interrupted''\<rparr>, s))
     lh_value_null ex_pending = Inl Assert_failed"
proof -
  have p: "lh_value_ptr (Some (Local 4)) = Value_ptr (Local 4)" by (simp add: lh_value_ptr_def)
  have e: "(installed 4 (Some (Loop 2)) ex_idle)
      \<lparr>locals := (locals (installed 4 (Some (Loop 2)) ex_idle))(4 := None)\<rparr> = ex_idle"
    by (simp add: installed_def ex_idle_def)
  from release_requires_empty_registry
    [of "\<lambda>hs arg s. Inr (Completed (Value_int 9), s)" 4 "[]" lh_value_null
        "installed 4 (Some (Loop 2)) ex_idle" "Completed (Value_int 9)"
        "installed 4 (Some (Loop 2)) ex_idle" "Value_int 9" _ "[]",
     OF refl _ registry_installed_idle]
    release_requires_empty_registry
    [of "\<lambda>hs arg s. Inr (Failed \<lparr>exn_code = - 4, exn_msg = ''interrupted''\<rparr>, s)" 4 "[]"
        lh_value_null ex_pending "Failed \<lparr>exn_code = - 4, exn_msg = ''interrupted''\<rparr>"
        ex_pending _ "\<lparr>exn_code = - 4, exn_msg = ''interrupted''\<rparr>" "[3]",
     OF refl _ registry_ex_pending]
  show ?thesis by (simp add: p e)
qed

section \<open>Steps that change only links\<close>

lemma links_only_refl [simp]: "links_only s s"
  by (simp add: links_only_def)

lemma links_only_trans: "links_only s s' \<Longrightarrow> links_only s' s'' \<Longrightarrow> links_only s s''"
  by (auto simp: links_only_def intro: frame_trans)

lemma links_only_at:
  assumes "links_only s s'" and "request_at s q = Some x"
  obtains y where "request_at s' q = Some y" and "payload y = payload x"
proof -
  from assms have "map_option payload (request_at s' q) = Some (payload x)"
    by (simp add: links_only_def)
  then show ?thesis by (auto intro: that)
qed

lemma update_links_only:
  assumes "request_at s p = Some r" and "\<And>q. payload (f q) = payload q"
  obtains s' where "update_request s p f = Inr s'" and "links_only s s'"
    and "request_at s' = (request_at s)(p \<mapsto> f r)"
proof -
  from update_requestE [OF assms(1), of f] obtain s' where
    s': "update_request s p f = Inr s'" "request_at s' = (request_at s)(p \<mapsto> f r)" "frame s s'"
    by blast
  have "links_only s s'"
    using s'(2,3) assms by (auto simp: links_only_def)
  with s' show ?thesis by (blast intro: that)
qed

lemma payload_links [simp]:
  "payload (q\<lparr>req_next := x\<rparr>) = payload q" "payload (q\<lparr>req_prev := y\<rparr>) = payload q"
  by (simp_all add: payload_def)

lemma request_at_other_fields [simp]:
  "request_at (s\<lparr>uvreqs := x\<rparr>) = request_at s"
  "request_at (s\<lparr>trace := t\<rparr>) = request_at s"
  by (simp_all add: request_at_def fun_eq_iff split: option.splits pointer.splits)

lemma set_uv_data_eq:
  "uvreqs s u = Some U \<Longrightarrow>
     set_uv_data s (Some (Uv_req u)) d = Inr (s\<lparr>uvreqs := (uvreqs s)(u \<mapsto> U\<lparr>uv_data := d\<rparr>)\<rparr>)"
  by (simp add: set_uv_data_def)

lemma free_request_eq:
  "reqs s a = Some r \<Longrightarrow>
     free_request s (Some (Request a)) = Inr (s\<lparr>reqs := (reqs s)(a := None)\<rparr>)"
  by (auto simp: free_request_def)

lemma async_req_resume_null:
  "uvreqs s u = Some U \<Longrightarrow> uv_data U = None \<Longrightarrow>
     async_req_resume E (Some (Uv_req u)) err s = Inr s"
  by (simp add: async_req_resume_def load_uvreq_def)

section \<open>Doubly linked lists in the store\<close>

lemma seg_Cons_links:
  "seg s pr p (q # qs) m \<longleftrightarrow>
     p = Some q \<and> (\<exists>nx. links_at s q = Some (nx, pr) \<and> seg s (Some q) nx qs m)"
  by (auto simp: links_at_def links_def split: option.splits)

declare seg.simps(2) [simp del]

lemma seg_cong:
  "(\<And>q. q \<in> set qs \<Longrightarrow> links_at s' q = links_at s q) \<Longrightarrow>
     seg s' pr p qs m = seg s pr p qs m"
proof (induction qs arbitrary: pr p)
  case Nil
  show ?case by simp
next
  case (Cons q qs)
  have "links_at s' q = links_at s q" by (rule Cons.prems) simp
  moreover have "\<And>nx. seg s' (Some q) nx qs m = seg s (Some q) nx qs m"
    by (rule Cons.IH) (simp add: Cons.prems)
  ultimately show ?case by (simp only: seg_Cons_links)
qed

lemma seg_append:
  "seg s pr p (xs @ ys) m \<longleftrightarrow>
     (\<exists>m'. seg s pr p xs m' \<and> seg s (if xs = [] then pr else Some (last xs)) m' ys m)"
proof (induction xs arbitrary: pr p)
  case Nil
  show ?case by simp
next
  case (Cons x xs)
  show ?case
    unfolding append_Cons seg_Cons_links Cons.IH
    by (cases "xs = []") auto
qed

lemma seg_head: "seg s pr p qs m \<Longrightarrow> qs \<noteq> [] \<Longrightarrow> p = head_ptr qs"
  by (cases qs) (simp_all add: head_ptr_def seg_Cons_links)

lemma seg_nil_end: "seg s pr p [] None \<longleftrightarrow> p = None"
  by simp

text \<open>Taking the node \<open>n\<close> out of a list: its predecessor \<open>p\<close> gets the successor of \<open>n\<close>
  as its next node, and that successor gets \<open>p\<close> as its previous node.\<close>

lemma seg_remove:
  assumes sg: "seg s pr h (pre @ p # n # post) None"
    and pre: "\<And>q. q \<in> set pre \<Longrightarrow> links_at s' q = links_at s q"
    and p: "links_at s' p = map_option (\<lambda>(nx, pv). (head_ptr post, pv)) (links_at s p)"
    and post: "\<And>x post'. post = x # post' \<Longrightarrow>
        links_at s' x = map_option (\<lambda>(nx, pv). (nx, Some p)) (links_at s x) \<and>
        (\<forall>q \<in> set post'. links_at s' q = links_at s q)"
  shows "seg s' pr h (pre @ p # post) None"
proof -
  let ?pr' = "if pre = [] then pr else Some (last pre)"
  from sg obtain m where m: "seg s pr h pre m" "seg s ?pr' m (p # n # post) None"
    unfolding seg_append by blast
  from m(2) obtain nx where mp: "m = Some p" and lp: "links_at s p = Some (Some n, ?pr')"
    and ln: "links_at s n = Some (nx, Some p)" and rest: "seg s (Some n) nx post None"
    by (auto simp: seg_Cons_links)
  have 1: "seg s' pr h pre (Some p)"
    using m(1) mp seg_cong [of pre s' s pr h "Some p"] pre by simp
  have 2: "links_at s' p = Some (head_ptr post, ?pr')"
    using p lp by simp
  have 3: "seg s' (Some p) (head_ptr post) post None"
  proof (cases post)
    case Nil
    then show ?thesis by (simp add: head_ptr_def)
  next
    case (Cons x post')
    with rest obtain nx2 where x: "nx = Some x" "links_at s x = Some (nx2, Some n)"
      "seg s (Some x) nx2 post' None"
      by (auto simp: seg_Cons_links)
    from post [OF Cons] have a: "links_at s' x = map_option (\<lambda>(nx, pv). (nx, Some p)) (links_at s x)"
      and b: "\<And>q. q \<in> set post' \<Longrightarrow> links_at s' q = links_at s q" by auto
    have "seg s' (Some x) nx2 post' None"
      using x(3) seg_cong [of post' s' s "Some x" nx2 None] b by simp
    with a x(2) Cons show ?thesis
      by (simp add: seg_Cons_links head_ptr_def)
  qed
  have "seg s' ?pr' (Some p) (p # post) None"
    using 2 3 by (simp add: seg_Cons_links)
  with 1 show ?thesis unfolding seg_append by blast
qed

text \<open>Putting the node \<open>n\<close> in front, right after the head \<open>h\<close>.\<close>

lemma seg_insert:
  assumes sg: "seg s pr (Some h) (h # rest) None"
    and h: "links_at s' h = map_option (\<lambda>(nx, pv). (Some n, pv)) (links_at s h)"
    and n: "links_at s' n = Some (head_ptr rest, Some h)"
    and rest: "\<And>x rest'. rest = x # rest' \<Longrightarrow>
        links_at s' x = map_option (\<lambda>(nx, pv). (nx, Some n)) (links_at s x) \<and>
        (\<forall>q \<in> set rest'. links_at s' q = links_at s q)"
  shows "seg s' pr (Some h) (h # n # rest) None"
proof -
  from sg obtain nx where lh: "links_at s h = Some (nx, pr)" and r: "seg s (Some h) nx rest None"
    by (auto simp: seg_Cons_links)
  have 1: "links_at s' h = Some (Some n, pr)" using h lh by simp
  have 3: "seg s' (Some n) (head_ptr rest) rest None"
  proof (cases rest)
    case Nil
    then show ?thesis by (simp add: head_ptr_def)
  next
    case (Cons x rest')
    with r obtain nx2 where x: "nx = Some x" "links_at s x = Some (nx2, Some h)"
      "seg s (Some x) nx2 rest' None"
      by (auto simp: seg_Cons_links)
    from rest [OF Cons] have a: "links_at s' x = map_option (\<lambda>(nx, pv). (nx, Some n)) (links_at s x)"
      and b: "\<And>q. q \<in> set rest' \<Longrightarrow> links_at s' q = links_at s q" by auto
    have "seg s' (Some x) nx2 rest' None"
      using x(3) seg_cong [of rest' s' s "Some x" nx2 None] b by simp
    with a x(2) Cons show ?thesis
      by (simp add: seg_Cons_links head_ptr_def)
  qed
  show ?thesis
    using 1 n 3 by (simp add: seg_Cons_links)
qed

section \<open>Unlinking and registering, link by link\<close>

lemma links_at_Some:
  "links_at s q = Some (nx, pv) \<longleftrightarrow>
     (\<exists>r. request_at s (Some q) = Some r \<and> req_next r = nx \<and> req_prev r = pv)"
  by (auto simp: links_at_def links_def)

lemma async_request_unlink_links:
  assumes n: "links_at s n = Some (nx, Some p)" and pn: "p \<noteq> n"
    and pv: "request_at s (Some p) \<noteq> None"
    and nxok: "\<And>x. nx = Some x \<Longrightarrow> x \<noteq> n \<and> x \<noteq> p \<and> request_at s (Some x) \<noteq> None"
  shows "\<exists>s'. async_request_unlink s (Some n) = Inr s' \<and> links_only s s' \<and>
     (\<forall>q. links_at s' q =
        (if q = n then Some (None, None)
         else if q = p then map_option (\<lambda>(a, b). (nx, b)) (links_at s q)
         else if nx = Some q then map_option (\<lambda>(a, b). (a, Some p)) (links_at s q)
         else links_at s q))"
proof -
  from n obtain r where r: "request_at s (Some n) = Some r" "req_next r = nx" "req_prev r = Some p"
    unfolding links_at_Some by blast
  from pv obtain rp where rp: "request_at s (Some p) = Some rp" by blast
  obtain s1 where s1: "update_request s (Some p) (\<lambda>q. q\<lparr>req_next := req_next r\<rparr>) = Inr s1"
    "links_only s s1" "request_at s1 = (request_at s)(Some p \<mapsto> rp\<lparr>req_next := nx\<rparr>)"
    using update_links_only [OF rp, of "\<lambda>q. q\<lparr>req_next := req_next r\<rparr>"] r(2) by auto
  have r1: "request_at s1 (Some n) = Some r" using s1(3) r(1) pn by simp
  let ?at2 = "case nx of None \<Rightarrow> request_at s1
      | Some x \<Rightarrow> (request_at s1)(Some x \<mapsto> (the (request_at s (Some x)))\<lparr>req_prev := Some p\<rparr>)"
  have "\<exists>s2. (if req_next r \<noteq> None
      then update_request s1 (req_next r) (\<lambda>q. q\<lparr>req_prev := Some p\<rparr>) else Inr s1) = Inr s2 \<and>
      links_only s1 s2 \<and> request_at s2 = ?at2"
  proof (cases nx)
    case None
    with r(2) show ?thesis by simp
  next
    case (Some x)
    from nxok [OF Some] obtain rx where x: "x \<noteq> n" "x \<noteq> p" "request_at s (Some x) = Some rx"
      by blast
    have rx1: "request_at s1 (Some x) = Some rx" using s1(3) x by simp
    obtain s2 where "update_request s1 (Some x) (\<lambda>q. q\<lparr>req_prev := Some p\<rparr>) = Inr s2"
      "links_only s1 s2" "request_at s2 = (request_at s1)(Some x \<mapsto> rx\<lparr>req_prev := Some p\<rparr>)"
      using update_links_only [OF rx1, of "\<lambda>q. q\<lparr>req_prev := Some p\<rparr>"] by auto
    with Some r(2) x(3) show ?thesis by simp
  qed
  then obtain s2 where s2: "(if req_next r \<noteq> None
      then update_request s1 (req_next r) (\<lambda>q. q\<lparr>req_prev := Some p\<rparr>) else Inr s1) = Inr s2"
    "links_only s1 s2" "request_at s2 = ?at2" by blast
  have r2: "request_at s2 (Some n) = Some r"
    using s2(3) r1 nxok by (cases nx) auto
  obtain s3 where s3: "update_request s2 (Some n) (\<lambda>q. q\<lparr>req_next := None\<rparr>) = Inr s3"
    "links_only s2 s3" "request_at s3 = (request_at s2)(Some n \<mapsto> r\<lparr>req_next := None\<rparr>)"
    using update_links_only [OF r2, of "\<lambda>q. q\<lparr>req_next := None\<rparr>"] by auto
  have r3: "request_at s3 (Some n) = Some (r\<lparr>req_next := None\<rparr>)" using s3(3) by simp
  obtain s4 where s4: "update_request s3 (Some n) (\<lambda>q. q\<lparr>req_prev := None\<rparr>) = Inr s4"
    "links_only s3 s4"
    "request_at s4 = (request_at s3)(Some n \<mapsto> r\<lparr>req_next := None, req_prev := None\<rparr>)"
    using update_links_only [OF r3, of "\<lambda>q. q\<lparr>req_prev := None\<rparr>"] by auto
  have run: "async_request_unlink s (Some n) = Inr s4"
    unfolding async_request_unlink_def
    by (simp only: load_request_eq [OF r(1)] load_request_eq [OF r1] bind_f_simps Let_def r(3)
        option.simps if_True s1(1) s2(1) s3(1) s4(1) simp_thms)
  have lo: "links_only s s4"
    using s1(2) s2(2) s3(2) s4(2) by (blast intro: links_only_trans)
  have at4: "request_at s4 =
      (?at2)(Some n \<mapsto> r\<lparr>req_next := None, req_prev := None\<rparr>)"
    using s4(3) s3(3) s2(3) by simp
  have "links_at s4 q =
        (if q = n then Some (None, None)
         else if q = p then map_option (\<lambda>(a, b). (nx, b)) (links_at s q)
         else if nx = Some q then map_option (\<lambda>(a, b). (a, Some p)) (links_at s q)
         else links_at s q)" for q
  proof (cases nx)
    case None
    then show ?thesis
      using at4 s1(3) rp by (simp add: links_at_def links_def)
  next
    case (Some x)
    from nxok [OF Some] obtain rx where x: "x \<noteq> n" "x \<noteq> p" "request_at s (Some x) = Some rx"
      by blast
    with Some show ?thesis
      using at4 s1(3) rp by (auto simp: links_at_def links_def)
  qed
  with run lo show ?thesis by blast
qed


lemma request_at_Request: "request_at s (Some (Request b)) = reqs s b"
  by (simp add: request_at_def)

lemma call_resumefun_trace:
  "\<exists>t. call_resumefun recording_engine (Some f) k lv uv err s = Inr (s\<lparr>trace := t\<rparr>)"
  by (cases f)
     (auto simp: call_resumefun_def async_resume_default_def recording_engine_def
        intro: exI [of _ "trace s"])

lemma links_uvreq [simp]: "links (q\<lparr>req_uvreq := x\<rparr>) = links q"
  by (simp add: links_def)

lemma registry_chain:
  "registry s l P \<longleftrightarrow> seg s None (Some (Sentinel l)) (Sentinel l # map Request P) None"
  by (simp add: registry_def dll_def)

lemma complete_registry:
  assumes reg: "registry s l P" and d: "distinct P" and a: "a \<in> set P"
    and U: "uvreqs s u = Some U" and dt: "uv_data U = Some (Request a)"
    and r: "reqs s a = Some r" and bk: "req_uvreq r = Some (Uv_req u)"
    and f: "req_resumefun r = Some f"
  shows "\<exists>s'. async_req_resume recording_engine (Some (Uv_req u)) err s = Inr s' \<and>
      registry s' l (removeAll a P) \<and> dom (reqs s') = dom (reqs s) - {a} \<and>
      uvreqs s' = (uvreqs s)(u \<mapsto> U\<lparr>uv_data := None\<rparr>) \<and>
      (\<forall>b. b \<noteq> a \<longrightarrow> map_option payload (reqs s' b) = map_option payload (reqs s b))"
proof -
  let ?n = "Request a" and ?h = "Sentinel l" and ?uv = "Some (Uv_req u)"
  from a obtain xs ys where P: "P = xs @ a # ys" by (auto simp: in_set_conv_decomp)
  with d have nin: "a \<notin> set xs" "a \<notin> set ys" by auto
  then have rem: "removeAll a P = xs @ ys" using P by simp
  define pre where "pre = butlast (?h # map Request xs)"
  define p where "p = last (?h # map Request xs)"
  define post where "post = map Request ys"
  have A: "?h # map Request xs = pre @ [p]"
    unfolding pre_def p_def by (rule append_butlast_last_id [symmetric]) simp
  have chain: "?h # map Request P = pre @ p # ?n # post"
    using A P by (simp add: post_def)
  have chain': "?h # map Request xs @ map Request ys = pre @ p # post"
    using A by (simp add: post_def)
  have dist: "distinct (pre @ p # ?n # post)"
    unfolding chain [symmetric] using d by (auto simp: distinct_map inj_on_def)
  \<comment> \<open>the two writes that clear the back-references\<close>
  let ?s1 = "s\<lparr>uvreqs := (uvreqs s)(u \<mapsto> U\<lparr>uv_data := None\<rparr>)\<rparr>"
  from r have at: "request_at s (Some ?n) = Some r" by (simp add: request_at_def)
  then have at1: "request_at ?s1 (Some ?n) = Some r" by simp
  obtain s2 where s2: "update_request ?s1 (Some ?n) (\<lambda>q. q\<lparr>req_uvreq := None\<rparr>) = Inr s2"
    "request_at s2 = (request_at s)(Some ?n \<mapsto> r\<lparr>req_uvreq := None\<rparr>)" "frame ?s1 s2"
    using update_requestE [OF at1, of "\<lambda>q. q\<lparr>req_uvreq := None\<rparr>"] by auto
  have l2: "links_at s2 q = links_at s q" for q
    using s2(2) at by (simp add: links_at_def)
  have sg2: "seg s2 None (Some ?h) (pre @ p # ?n # post) None"
    using reg seg_cong [of "pre @ p # ?n # post" s2 s None "Some ?h" None] l2
    by (simp add: registry_chain chain)
  \<comment> \<open>what the list says about the request and its neighbours\<close>
  from sg2 obtain m where "seg s2 (if pre = [] then None else Some (last pre)) m (p # ?n # post) None"
    unfolding seg_append by blast
  then obtain nx pr' where lp: "links_at s2 p = Some (Some ?n, pr')"
    and ln: "links_at s2 ?n = Some (nx, Some p)" and rest: "seg s2 (Some ?n) nx post None"
    by (auto simp: seg_Cons_links)
  have nx: "nx = head_ptr post"
  proof (cases post)
    case Nil
    with rest show ?thesis by (simp add: head_ptr_def)
  next
    case (Cons x post')
    with rest show ?thesis by (simp add: head_ptr_def seg_Cons_links)
  qed
  have pn: "p \<noteq> ?n" using dist by auto
  have pv: "request_at s2 (Some p) \<noteq> None" using lp by (auto simp: links_at_def)
  have nxok: "x \<noteq> ?n \<and> x \<noteq> p \<and> request_at s2 (Some x) \<noteq> None" if "nx = Some x" for x
  proof -
    from that nx obtain post' where post': "post = x # post'"
      by (cases post) (simp_all add: head_ptr_def)
    with rest that have "links_at s2 x \<noteq> None" by (auto simp: seg_Cons_links)
    with post' dist show ?thesis by (auto simp: links_at_def)
  qed
  from async_request_unlink_links [OF ln pn pv nxok] obtain s3 where
    s3: "async_request_unlink s2 (Some ?n) = Inr s3" "links_only s2 s3"
    and l3: "\<And>q. links_at s3 q =
        (if q = ?n then Some (None, None)
         else if q = p then map_option (\<lambda>(a, b). (nx, b)) (links_at s2 q)
         else if nx = Some q then map_option (\<lambda>(a, b). (a, Some p)) (links_at s2 q)
         else links_at s2 q)"
    by blast
  have at2: "request_at s2 (Some ?n) = Some (r\<lparr>req_uvreq := None\<rparr>)" using s2(2) by simp
  from s3(2) at2 obtain r3 where r3: "request_at s3 (Some ?n) = Some r3"
    "payload r3 = payload (r\<lparr>req_uvreq := None\<rparr>)"
    by (rule links_only_at)
  from r3(2) f have f3: "req_resumefun r3 = Some f" by (simp add: payload_def)
  from r3(1) have reqs3: "reqs s3 a = Some r3" by (simp add: request_at_def)
  let ?s4 = "s3\<lparr>reqs := (reqs s3)(a := None)\<rparr>"
  from call_resumefun_trace [of f "req_resume r3" "req_local r3" ?uv err ?s4] obtain t where
    call: "call_resumefun recording_engine (req_resumefun r3) (req_resume r3) (req_local r3) ?uv err ?s4 =
      Inr (?s4\<lparr>trace := t\<rparr>)"
    unfolding f3 by blast
  let ?s5 = "?s4\<lparr>trace := t\<rparr>"
  have res: "async_request_resume recording_engine (Some ?n) ?uv err s = Inr ?s5"
    unfolding async_request_resume_def
    by (simp only: load_request_eq [OF at] load_request_eq [OF r3(1)] bk bind_f_simps
        assert_c_simps simp_thms option.simps if_True set_uv_data_eq [OF U] s2(1) s3(1)
        free_request_eq [OF reqs3] call)
  have run: "async_req_resume recording_engine ?uv err s = Inr ?s5"
    using U dt res by (simp add: async_req_resume_def load_uvreq_def)
  \<comment> \<open>the store after the call\<close>
  have l5: "links_at ?s5 q = (if q = ?n then None else links_at s3 q)" for q
    by (cases q) (auto simp: links_at_def request_at_def)
  have "seg ?s5 None (Some ?h) (pre @ p # post) None"
  proof (rule seg_remove [OF sg2])
    fix q assume "q \<in> set pre"
    with dist nx show "links_at ?s5 q = links_at s2 q"
      by (cases post) (auto simp: l5 l3 head_ptr_def)
  next
    show "links_at ?s5 p = map_option (\<lambda>(nx, pv). (head_ptr post, pv)) (links_at s2 p)"
      using pn nx by (simp add: l5 l3)
  next
    fix x post' assume "post = x # post'"
    with dist nx show "links_at ?s5 x = map_option (\<lambda>(nx, pv). (nx, Some p)) (links_at s2 x) \<and>
        (\<forall>q \<in> set post'. links_at ?s5 q = links_at s2 q)"
      by (auto simp: l5 l3 head_ptr_def)
  qed
  then have reg5: "registry ?s5 l (removeAll a P)"
    by (simp add: registry_chain rem chain')
  have fr: "dom (reqs s3) = dom (reqs s)" "uvreqs s3 = (uvreqs s)(u \<mapsto> U\<lparr>uv_data := None\<rparr>)"
    using s2(3) s3(2) by (simp_all add: links_only_def frame_def)
  have pay: "map_option payload (reqs ?s5 b) = map_option payload (reqs s b)" if "b \<noteq> a" for b
  proof -
    have "map_option payload (request_at s3 (Some (Request b))) =
        map_option payload (request_at s2 (Some (Request b)))"
      using s3(2) by (simp add: links_only_def)
    with that s2(2) show ?thesis by (simp add: request_at_Request)
  qed
  show ?thesis
    using run reg5 fr pay by auto
qed

lemma request_at_Sentinel:
  "request_at s (Some (Sentinel l)) = map_option local_requests (locals s l)"
  by (simp add: request_at_def)

lemma async_req_register_opfun_links:
  assumes L0: "locals s l = Some L0" and nxh: "req_next (local_requests L0) = nx"
    and ra: "reqs s a = Some ra"
    and nxok: "\<And>x. nx = Some x \<Longrightarrow>
       x \<noteq> Request a \<and> x \<noteq> Sentinel l \<and> request_at s (Some x) \<noteq> None"
  shows "\<exists>s'. async_req_register_opfun Y k (lh_value_ptr (Some (Local l)))
        (lh_value_ptr (Some (Request a))) s =
        Inr (Tail_resume (lh_value_ptr (Some (Local l))) lh_value_null, s') \<and>
     links_only s s' \<and>
     (\<forall>q. links_at s' q =
        (if q = Request a then Some (nx, Some (Sentinel l))
         else if q = Sentinel l then map_option (\<lambda>(x, pv). (Some (Request a), pv)) (links_at s q)
         else if nx = Some q then map_option (\<lambda>(x, pv). (x, Some (Request a))) (links_at s q)
         else links_at s q))"
proof -
  let ?n = "Request a" and ?h = "Sentinel l"
  let ?rh = "local_requests L0"
  have ath: "request_at s (Some ?h) = Some ?rh" using L0 by (simp add: request_at_Sentinel)
  have atn: "request_at s (Some ?n) = Some ra" using ra by (simp add: request_at_Request)
  have ll: "load_local s (Some (Local l)) = Inr L0" using L0 by (simp add: load_local_def)
  obtain s1 where s1: "update_request s (Some ?n) (\<lambda>q. q\<lparr>req_next := req_next ?rh\<rparr>) = Inr s1"
    "links_only s s1" "request_at s1 = (request_at s)(Some ?n \<mapsto> ra\<lparr>req_next := nx\<rparr>)"
    using update_links_only [OF atn, of "\<lambda>q. q\<lparr>req_next := req_next ?rh\<rparr>"] nxh by auto
  let ?r1 = "ra\<lparr>req_next := nx\<rparr>"
  have r1: "request_at s1 (Some ?n) = Some ?r1" using s1(3) by simp
  let ?at2 = "case nx of None \<Rightarrow> request_at s1
      | Some x \<Rightarrow> (request_at s1)(Some x \<mapsto> (the (request_at s (Some x)))\<lparr>req_prev := Some ?n\<rparr>)"
  have "\<exists>s2. (if req_next ?r1 \<noteq> None
      then update_request s1 (req_next ?r1) (\<lambda>q. q\<lparr>req_prev := Some ?n\<rparr>) else Inr s1) = Inr s2 \<and>
      links_only s1 s2 \<and> request_at s2 = ?at2"
  proof (cases nx)
    case None
    then show ?thesis by simp
  next
    case (Some x)
    from nxok [OF Some] obtain rx where x: "x \<noteq> ?n" "x \<noteq> ?h" "request_at s (Some x) = Some rx"
      by blast
    have rx1: "request_at s1 (Some x) = Some rx" using s1(3) x by simp
    obtain s2 where "update_request s1 (Some x) (\<lambda>q. q\<lparr>req_prev := Some ?n\<rparr>) = Inr s2"
      "links_only s1 s2" "request_at s2 = (request_at s1)(Some x \<mapsto> rx\<lparr>req_prev := Some ?n\<rparr>)"
      using update_links_only [OF rx1, of "\<lambda>q. q\<lparr>req_prev := Some ?n\<rparr>"] by auto
    with Some x(3) show ?thesis by simp
  qed
  then obtain s2 where s2: "(if req_next ?r1 \<noteq> None
      then update_request s1 (req_next ?r1) (\<lambda>q. q\<lparr>req_prev := Some ?n\<rparr>) else Inr s1) = Inr s2"
    "links_only s1 s2" "request_at s2 = ?at2" by blast
  have r2: "request_at s2 (Some ?n) = Some ?r1"
    using s2(3) r1 nxok by (cases nx) auto
  obtain s3 where s3: "update_request s2 (Some ?n) (\<lambda>q. q\<lparr>req_prev := Some ?h\<rparr>) = Inr s3"
    "links_only s2 s3" "request_at s3 = (request_at s2)(Some ?n \<mapsto> ?r1\<lparr>req_prev := Some ?h\<rparr>)"
    using update_links_only [OF r2, of "\<lambda>q. q\<lparr>req_prev := Some ?h\<rparr>"] by auto
  have h3: "request_at s3 (Some ?h) = Some ?rh"
    using s3(3) s2(3) s1(3) ath nxok by (cases nx) auto
  obtain s4 where s4: "update_request s3 (Some ?h) (\<lambda>q. q\<lparr>req_next := Some ?n\<rparr>) = Inr s4"
    "links_only s3 s4" "request_at s4 = (request_at s3)(Some ?h \<mapsto> ?rh\<lparr>req_next := Some ?n\<rparr>)"
    using update_links_only [OF h3, of "\<lambda>q. q\<lparr>req_next := Some ?n\<rparr>"] by auto
  have run: "async_req_register_opfun Y k (lh_value_ptr (Some (Local l)))
        (lh_value_ptr (Some ?n)) s =
        Inr (Tail_resume (lh_value_ptr (Some (Local l))) lh_value_null, s4)"
    unfolding async_req_register_opfun_def
    by (simp only: lh_ptr_value_ptr Let_def ll load_request_eq [OF r1] bind_f_simps
        assert_c_simps simp_thms option.simps requests_of_def pointer.simps s1(1) s2(1) s3(1)
        s4(1) lh_tail_resume_def)
  have lo: "links_only s s4"
    using s1(2) s2(2) s3(2) s4(2) by (blast intro: links_only_trans)
  have at4: "request_at s4 =
      (?at2)(Some ?n \<mapsto> ?r1\<lparr>req_prev := Some ?h\<rparr>, Some ?h \<mapsto> ?rh\<lparr>req_next := Some ?n\<rparr>)"
    using s4(3) s3(3) s2(3) by simp
  have "links_at s4 q =
        (if q = ?n then Some (nx, Some ?h)
         else if q = ?h then map_option (\<lambda>(x, pv). (Some ?n, pv)) (links_at s q)
         else if nx = Some q then map_option (\<lambda>(x, pv). (x, Some ?n)) (links_at s q)
         else links_at s q)" for q
  proof (cases nx)
    case None
    then show ?thesis
      using at4 s1(3) ath by (auto simp: links_at_def links_def)
  next
    case (Some x)
    from nxok [OF Some] obtain rx where x: "x \<noteq> ?n" "x \<noteq> ?h" "request_at s (Some x) = Some rx"
      by blast
    with Some show ?thesis
      using at4 s1(3) ath by (auto simp: links_at_def links_def)
  qed
  with run lo show ?thesis by blast
qed


lemma root_yield_req_await:
  "lh_yield ((async_def, lv) # hs) k Async_req_await arg s =
     (case async_req_await_opfun (lh_yield hs) k lv arg s of
        Inl e \<Rightarrow> Inl e
      | Inr (Tail_resume l v, s') \<Rightarrow> Inr (Resumed v, s')
      | Inr (Op_return v, s') \<Rightarrow> Inr (Suspended v, s'))"
  by (simp add: async_def_def find_async_ops)

lemma request_at_alloc:
  "request_at (s\<lparr>reqs := (reqs s)(a \<mapsto> z)\<rparr>) = (request_at s)(Some (Request a) \<mapsto> z)"
  by (auto simp: request_at_def fun_eq_iff split: option.splits pointer.splits)

lemma links_zero [simp]:
  "links (zero_request\<lparr>req_uvreq := x, req_scope := y\<rparr>) = (None, None)"
  by (simp add: links_def zero_request_def)

lemma links_await [simp]:
  "links (q\<lparr>req_local := x, req_resume := y, req_resumefun := z\<rparr>) = links q"
  by (simp add: links_def)

lemma begin_await_registry:
  assumes reg: "registry s l P" and d: "distinct P" and dm: "dom (reqs s) = set P"
    and a: "a \<notin> set P" and U: "uvreqs s u = Some U"
  shows "\<exists>s'. asyncx_await (root_yield l) k (Some (Uv_req u)) a s =
        Inr (Suspended lh_value_null, s') \<and>
      registry s' l (a # P) \<and> dom (reqs s') = insert a (dom (reqs s)) \<and>
      uvreqs s' = (uvreqs s)(u \<mapsto> U\<lparr>uv_data := Some (Request a)\<rparr>) \<and>
      trace s' = trace s \<and>
      (\<exists>r. reqs s' a = Some r \<and> req_uvreq r = Some (Uv_req u) \<and> req_resume r = k \<and>
           req_resumefun r = Some Async_resume_default) \<and>
      (\<forall>b. b \<noteq> a \<longrightarrow> map_option payload (reqs s' b) = map_option payload (reqs s b))"
proof -
  let ?n = "Request a" and ?h = "Sentinel l" and ?uv = "Some (Uv_req u)"
  let ?lv = "lh_value_ptr (Some (Local l))"
  let ?rest = "map Request P"
  \<comment> \<open>allocation and the three writes of \<open>async_request_alloc\<close>\<close>
  let ?s0 = "s\<lparr>reqs := (reqs s)(a \<mapsto> zero_request)\<rparr>"
  let ?s1 = "?s0\<lparr>uvreqs := (uvreqs ?s0)(u \<mapsto> U\<lparr>uv_data := Some ?n\<rparr>)\<rparr>"
  have sd: "set_uv_data ?s0 ?uv (Some ?n) = Inr ?s1"
    using U by (simp add: set_uv_data_def)
  have at1: "request_at ?s1 = (request_at s)(Some ?n \<mapsto> zero_request)"
    by (simp add: request_at_alloc)
  then have n1: "request_at ?s1 (Some ?n) = Some zero_request" by simp
  obtain s2 where s2: "update_request ?s1 (Some ?n) (\<lambda>q. q\<lparr>req_uvreq := ?uv\<rparr>) = Inr s2"
    "request_at s2 = (request_at ?s1)(Some ?n \<mapsto> zero_request\<lparr>req_uvreq := ?uv\<rparr>)"
    "frame ?s1 s2"
    using update_requestE [OF n1, of "\<lambda>q. q\<lparr>req_uvreq := ?uv\<rparr>"] by auto
  define cs where "cs = cancel_scope (implicit_cancel_scope s2)"
  let ?z3 = "zero_request\<lparr>req_uvreq := ?uv, req_scope := cs\<rparr>"
  have n2: "request_at s2 (Some ?n) = Some (zero_request\<lparr>req_uvreq := ?uv\<rparr>)"
    using s2(2) by simp
  obtain s3 where s3: "update_request s2 (Some ?n) (\<lambda>q. q\<lparr>req_scope := cs\<rparr>) = Inr s3"
    "request_at s3 = (request_at s2)(Some ?n \<mapsto> ?z3)" "frame s2 s3"
    using update_requestE [OF n2, of "\<lambda>q. q\<lparr>req_scope := cs\<rparr>"] by auto
  have at3: "request_at s3 = (request_at s)(Some ?n \<mapsto> ?z3)"
    using s3(2) s2(2) at1 by simp
  have l3: "links_at s3 q = (if q = ?n then Some (None, None) else links_at s q)" for q
    using at3 by (simp add: links_at_def)
  have nin: "?n \<notin> set (?h # ?rest)" using a by auto
  have "seg s3 None (Some ?h) (?h # ?rest) None = seg s None (Some ?h) (?h # ?rest) None"
  proof (rule seg_cong)
    fix q assume "q \<in> set (?h # ?rest)"
    with nin have "q \<noteq> ?n" by blast
    then show "links_at s3 q = links_at s q" by (simp add: l3)
  qed
  with reg have sg3: "seg s3 None (Some ?h) (?h # ?rest) None"
    by (simp add: registry_chain)
  \<comment> \<open>the registration\<close>
  from sg3 obtain nx where lh3: "links_at s3 ?h = Some (nx, None)"
    and rest3: "seg s3 (Some ?h) nx ?rest None"
    by (auto simp: seg_Cons_links)
  have nx: "nx = head_ptr ?rest"
  proof (cases P)
    case Nil
    with rest3 show ?thesis by (simp add: head_ptr_def)
  next
    case (Cons b P')
    with rest3 show ?thesis by (simp add: head_ptr_def seg_Cons_links)
  qed
  from lh3 obtain L3 where L3: "locals s3 l = Some L3" "req_next (local_requests L3) = nx"
    by (auto simp: links_at_Some request_at_Sentinel)
  have ra3: "reqs s3 a = Some ?z3" using at3 by (simp add: request_at_Request [symmetric])
  have nxok: "x \<noteq> ?n \<and> x \<noteq> ?h \<and> request_at s3 (Some x) \<noteq> None" if "nx = Some x" for x
  proof -
    from that nx obtain b P' where P': "P = b # P'" "x = Request b"
      by (cases P) (simp_all add: head_ptr_def)
    with rest3 that have "links_at s3 x \<noteq> None" by (auto simp: seg_Cons_links)
    with P' a show ?thesis by (auto simp: links_at_def)
  qed
  from async_req_register_opfun_links [OF L3 ra3 nxok, of "lh_yield []" k] obtain s4 where
    s4: "async_req_register_opfun (lh_yield []) k ?lv (lh_value_ptr (Some ?n)) s3 =
        Inr (Tail_resume ?lv lh_value_null, s4)" "links_only s3 s4"
    and l4: "\<And>q. links_at s4 q =
        (if q = ?n then Some (nx, Some ?h)
         else if q = ?h then map_option (\<lambda>(x, pv). (Some ?n, pv)) (links_at s3 q)
         else if nx = Some q then map_option (\<lambda>(x, pv). (x, Some ?n)) (links_at s3 q)
         else links_at s3 q)"
    by blast
  have reg_y: "async_req_register (root_yield l) k (Some ?n) s3 = Inr (Resumed (), s4)"
    unfolding async_req_register_def root_yield_def root_yield_req_register s4(1)
    by (simp add: bind_y_def)
  have alloc: "async_request_alloc (root_yield l) k ?uv a s = Inr (Resumed (Some ?n), s4)"
    unfolding async_request_alloc_def Let_def
    by (simp only: sd bind_f_simps s2(1) cs_def [symmetric] s3(1) reg_y)
       (simp add: bind_y_def)
  have sg4: "seg s4 None (Some ?h) (?h # ?n # ?rest) None"
  proof (rule seg_insert [OF sg3])
    show "links_at s4 ?h = map_option (\<lambda>(nx, pv). (Some ?n, pv)) (links_at s3 ?h)"
      by (simp add: l4)
  next
    show "links_at s4 ?n = Some (head_ptr ?rest, Some ?h)"
      by (simp add: l4 nx)
  next
    fix x rest' assume "?rest = x # rest'"
    with d a nx show "links_at s4 x = map_option (\<lambda>(nx, pv). (nx, Some ?n)) (links_at s3 x) \<and>
        (\<forall>q \<in> set rest'. links_at s4 q = links_at s3 q)"
      by (cases P) (auto simp: l4 head_ptr_def)
  qed
  \<comment> \<open>the await\<close>
  have n3: "request_at s3 (Some ?n) = Some ?z3" using at3 by simp
  from s4(2) n3 obtain r4 where r4: "request_at s4 (Some ?n) = Some r4" "payload r4 = payload ?z3"
    by (rule links_only_at)
  have uv4: "uvreqs s4 = (uvreqs s)(u \<mapsto> U\<lparr>uv_data := Some ?n\<rparr>)"
    using s2(3) s3(3) s4(2) by (simp add: links_only_def frame_def)
  have r4': "req_uvreq r4 = Some (Uv_req u)" "req_resumefun r4 = None"
    using r4(2) by (simp_all add: payload_def zero_request_def)
  have aw1: "request_at s4 (lh_ptr_value (lh_value_ptr (Some ?n))) = Some r4"
    using r4(1) by simp
  have aw3: "uvreqs s4 u = Some (U\<lparr>uv_data := Some ?n\<rparr>)" using uv4 by simp
  have aw4: "uv_data (U\<lparr>uv_data := Some ?n\<rparr>) = lh_ptr_value (lh_value_ptr (Some ?n))"
    by simp
  from async_req_await_opfun_stores [OF aw1 r4'(1) aw3 aw4, of "lh_yield []" k ?lv]
  obtain s5 where s5: "async_req_await_opfun (lh_yield []) k ?lv (lh_value_ptr (Some ?n)) s4 =
      Inr (Op_return lh_value_null, s5)" "frame s4 s5"
    "request_at s5 = (request_at s4)(Some ?n \<mapsto>
        r4\<lparr>req_local := ?lv, req_resume := k, req_resumefun := Some Async_resume_default\<rparr>)"
    using r4'(2) by auto
  have await: "async_req_await (root_yield l) k (Some ?n) s4 = Inr (Suspended lh_value_null, s5)"
    unfolding async_req_await_def root_yield_def root_yield_req_await s5(1)
    by (simp add: bind_y_def)
  have run: "asyncx_await (root_yield l) k ?uv a s = Inr (Suspended lh_value_null, s5)"
    unfolding asyncx_await_def alloc by (simp add: bind_y_def await)
  have l5: "links_at s5 q = links_at s4 q" for q
    using s5(3) r4(1) by (simp add: links_at_def)
  have reg5: "registry s5 l (a # P)"
    using sg4 seg_cong [of "?h # ?n # ?rest" s5 s4 None "Some ?h" None] l5
    by (simp add: registry_chain)
  have dom5: "dom (reqs s5) = insert a (dom (reqs s))"
    using s2(3) s3(3) s4(2) s5(2) by (simp add: links_only_def frame_def)
  have uv5: "uvreqs s5 = (uvreqs s)(u \<mapsto> U\<lparr>uv_data := Some ?n\<rparr>)"
    using uv4 s5(2) by (simp add: frame_def)
  have tr5: "trace s5 = trace s"
    using s2(3) s3(3) s4(2) s5(2) by (simp add: links_only_def frame_def)
  have new: "\<exists>r. reqs s5 a = Some r \<and> req_uvreq r = Some (Uv_req u) \<and> req_resume r = k \<and>
           req_resumefun r = Some Async_resume_default"
    using s5(3) r4'(1) by (simp add: request_at_Request [symmetric])
  have pay: "map_option payload (reqs s5 b) = map_option payload (reqs s b)" if "b \<noteq> a" for b
  proof -
    have "map_option payload (request_at s4 (Some (Request b))) =
        map_option payload (request_at s3 (Some (Request b)))"
      using s4(2) by (simp add: links_only_def)
    with that s5(3) at3 show ?thesis by (simp add: request_at_Request [symmetric])
  qed
  show ?thesis
    using run reg5 dom5 uv5 tr5 new pay by blast
qed

section \<open>The registry reflects the pending requests\<close>

lemma payload_fields:
  "map_option payload x = map_option payload (Some r) \<Longrightarrow>
     \<exists>r'. x = Some r' \<and> req_uvreq r' = req_uvreq r \<and> req_resumefun r' = req_resumefun r"
  by (cases x) (auto simp: payload_def)

lemma begin_await_inv:
  assumes inv: "registry_inv l s P" and u: "u \<in> dom (uvreqs s)" and a: "a \<notin> set (fst P)"
  shows "\<exists>s'. exec_call (root_yield l) (Begin_await u a k) s = Inr s' \<and>
      registry_inv l s' (spec_call (Begin_await u a k) P) \<and> dom (uvreqs s') = dom (uvreqs s)"
proof -
  from u obtain U where U: "uvreqs s u = Some U" by blast
  from inv have reg: "registry s l (fst P)" and d: "distinct (fst P)"
    and dm: "dom (reqs s) = set (fst P)"
    and dat: "\<And>u' U'. uvreqs s u' = Some U' \<Longrightarrow> uv_data U' = map_option Request (snd P u')"
    and att: "\<And>u' a'. snd P u' = Some a' \<Longrightarrow>
        \<exists>r. reqs s a' = Some r \<and> req_uvreq r = Some (Uv_req u') \<and> req_resumefun r \<noteq> None"
    unfolding registry_inv_def by (auto split: option.splits)
  from begin_await_registry [OF reg d dm a U, of "Some (Resume k)"] obtain s' where
    run: "asyncx_await (root_yield l) (Some (Resume k)) (Some (Uv_req u)) a s =
        Inr (Suspended lh_value_null, s')"
    and reg': "registry s' l (a # fst P)"
    and dm': "dom (reqs s') = insert a (dom (reqs s))"
    and uv': "uvreqs s' = (uvreqs s)(u \<mapsto> U\<lparr>uv_data := Some (Request a)\<rparr>)"
    and new: "\<exists>r. reqs s' a = Some r \<and> req_uvreq r = Some (Uv_req u) \<and>
           req_resume r = Some (Resume k) \<and> req_resumefun r = Some Async_resume_default"
    and pay: "\<And>b. b \<noteq> a \<Longrightarrow> map_option payload (reqs s' b) = map_option payload (reqs s b)"
    by blast
  have ex: "exec_call (root_yield l) (Begin_await u a k) s = Inr s'"
    by (simp add: exec_call_def run)
  have att': "\<exists>r. reqs s' a' = Some r \<and> req_uvreq r = Some (Uv_req u') \<and> req_resumefun r \<noteq> None"
    if "((snd P)(u \<mapsto> a)) u' = Some a'" for u' a'
  proof (cases "u' = u")
    case True
    with that new show ?thesis by auto
  next
    case False
    with that have sp: "snd P u' = Some a'" by simp
    from att [OF sp] obtain r where r: "reqs s a' = Some r" "req_uvreq r = Some (Uv_req u')"
      "req_resumefun r \<noteq> None" by blast
    from r(1) dm a have "a' \<noteq> a" by auto
    from pay [OF this] r(1) have "map_option payload (reqs s' a') = map_option payload (Some r)"
      by simp
    from payload_fields [OF this] r show ?thesis by auto
  qed
  have dat': "uv_data U' = map_option Request (((snd P)(u \<mapsto> a)) u')"
    if "uvreqs s' u' = Some U'" for u' U'
    using that uv' dat [of u' U'] by (cases "u' = u") auto
  have "registry_inv l s' (a # fst P, (snd P)(u \<mapsto> a))"
    unfolding registry_inv_def
    using reg' d a dm dm' dat' att' by (auto split: option.splits)
  moreover have "dom (uvreqs s') = dom (uvreqs s)" using uv' U by auto
  ultimately show ?thesis using ex by (simp add: spec_call_def)
qed

lemma complete_operation_inv:
  assumes inv: "registry_inv l s P" and u: "u \<in> dom (uvreqs s)"
  shows "\<exists>s'. exec_call (root_yield l) (Complete_operation u err) s = Inr s' \<and>
      registry_inv l s' (spec_call (Complete_operation u err) P) \<and>
      dom (uvreqs s') = dom (uvreqs s)"
proof -
  from u obtain U where U: "uvreqs s u = Some U" by blast
  from inv have reg: "registry s l (fst P)" and d: "distinct (fst P)"
    and dm: "dom (reqs s) = set (fst P)"
    and dat: "\<And>u' U'. uvreqs s u' = Some U' \<Longrightarrow> uv_data U' = map_option Request (snd P u')"
    and att: "\<And>u' a'. snd P u' = Some a' \<Longrightarrow>
        \<exists>r. reqs s a' = Some r \<and> req_uvreq r = Some (Uv_req u') \<and> req_resumefun r \<noteq> None"
    unfolding registry_inv_def by (auto split: option.splits)
  show ?thesis
  proof (cases "snd P u")
    case None
    with dat [OF U] have "uv_data U = None" by simp
    from async_req_resume_null [OF U this] None inv show ?thesis
      by (simp add: exec_call_def spec_call_def)
  next
    case (Some a)
    with dat [OF U] have dt: "uv_data U = Some (Request a)" by simp
    from att [OF Some] obtain r f where r: "reqs s a = Some r" "req_uvreq r = Some (Uv_req u)"
      "req_resumefun r = Some f" by auto
    from r(1) dm have a: "a \<in> set (fst P)" by auto
    from complete_registry [OF reg d a U dt r, of err] obtain s' where
      run: "async_req_resume recording_engine (Some (Uv_req u)) err s = Inr s'"
      and reg': "registry s' l (removeAll a (fst P))"
      and dm': "dom (reqs s') = dom (reqs s) - {a}"
      and uv': "uvreqs s' = (uvreqs s)(u \<mapsto> U\<lparr>uv_data := None\<rparr>)"
      and pay: "\<And>b. b \<noteq> a \<Longrightarrow> map_option payload (reqs s' b) = map_option payload (reqs s b)"
      by blast
    have ex: "exec_call (root_yield l) (Complete_operation u err) s = Inr s'"
      by (simp add: exec_call_def run)
    have att': "\<exists>r. reqs s' a' = Some r \<and> req_uvreq r = Some (Uv_req u') \<and> req_resumefun r \<noteq> None"
      if "((snd P)(u := None)) u' = Some a'" for u' a'
    proof -
      from that have ne: "u' \<noteq> u" and sp: "snd P u' = Some a'" by (auto split: if_splits)
      from att [OF sp] obtain r' where r': "reqs s a' = Some r'" "req_uvreq r' = Some (Uv_req u')"
        "req_resumefun r' \<noteq> None" by blast
      have "a' \<noteq> a" using r' r ne by auto
      from pay [OF this] r'(1) have "map_option payload (reqs s' a') = map_option payload (Some r')"
        by simp
      from payload_fields [OF this] r' show ?thesis by auto
    qed
    have dat': "uv_data U' = map_option Request (((snd P)(u := None)) u')"
      if "uvreqs s' u' = Some U'" for u' U'
      using that uv' dat [of u' U'] by (cases "u' = u") auto
    have "registry_inv l s' (removeAll a (fst P), (snd P)(u := None))"
      unfolding registry_inv_def
      using reg' d dm dm' dat' att' by (auto simp: distinct_removeAll split: option.splits)
    moreover have "dom (uvreqs s') = dom (uvreqs s)" using uv' U by auto
    ultimately show ?thesis using ex Some by (simp add: spec_call_def)
  qed
qed

lemma run_calls_inv:
  "registry_inv l s P \<Longrightarrow> valid_calls (dom (uvreqs s)) cs P \<Longrightarrow>
     \<exists>s'. run_calls (root_yield l) cs s = Inr s' \<and> registry_inv l s' (spec_calls cs P)"
proof (induction cs arbitrary: s P)
  case Nil
  then show ?case by (simp add: spec_calls_def)
next
  case (Cons c cs)
  have "\<exists>s1. exec_call (root_yield l) c s = Inr s1 \<and> registry_inv l s1 (spec_call c P) \<and>
      dom (uvreqs s1) = dom (uvreqs s)"
  proof (cases c)
    case (Begin_await u a k)
    with Cons.prems show ?thesis by (simp add: begin_await_inv)
  next
    case (Complete_operation u err)
    with Cons.prems show ?thesis by (simp add: complete_operation_inv)
  qed
  then obtain s1 where s1: "exec_call (root_yield l) c s = Inr s1"
    "registry_inv l s1 (spec_call c P)" "dom (uvreqs s1) = dom (uvreqs s)" by blast
  from Cons.prems(2) s1(3) have "valid_calls (dom (uvreqs s1)) cs (spec_call c P)" by simp
  from Cons.IH [OF s1(2) this] s1(1) show ?case
    by (simp add: spec_calls_def)
qed

lemma installed_inv:
  assumes "idle s0"
  shows "registry_inv l (installed l loop s0) ([], Map.empty)"
  using assms
  by (auto simp: registry_inv_def registry_chain seg_Cons_links links_at_def links_def
      request_at_def installed_def async_local_init_def zero_request_def idle_def
      split: option.splits)

text \<open>
  C2. Start from a store with no outstanding request, install the root handler, and let
  the environment make any sequence of \<open>asyncx_await\<close> calls and completion callbacks
  (on libuv requests of the store, the allocator returning blocks that are not in use).
  Every call returns without a fault, and afterwards the list at the sentinel of the
  handler is exactly the list of the requests begun and not yet completed, most recent
  first: following \<open>next\<close> from the sentinel visits them in this order and ends at the
  null pointer, and the \<open>prev\<close> of every node is the node before it. The list has no
  repetition and holds every live request.
\<close>

theorem registry_reflects_pending:
  assumes "idle s0" and "valid_calls (dom (uvreqs s0)) cs ([], Map.empty)"
  shows "\<exists>s'. run_calls (root_yield l) cs (installed l loop s0) = Inr s' \<and>
      registry s' l (fst (spec_calls cs ([], Map.empty))) \<and>
      distinct (fst (spec_calls cs ([], Map.empty))) \<and>
      dom (reqs s') = set (fst (spec_calls cs ([], Map.empty)))"
proof -
  have "valid_calls (dom (uvreqs (installed l loop s0))) cs ([], Map.empty)"
    using assms(2) by (simp add: installed_def)
  from run_calls_inv [OF installed_inv [OF assms(1)] this]
  show ?thesis by (auto simp: registry_inv_def)
qed

theorem registry_reflects_pending_witness:
  "(\<exists>s'. run_calls (root_yield 4) [Begin_await 7 3 5, Begin_await 8 6 9]
           (installed 4 (Some (Loop 2)) ex_idle) = Inr s' \<and> registry s' 4 [6, 3]) \<and>
   (\<exists>s'. run_calls (root_yield 4) [Begin_await 7 3 5, Begin_await 8 6 9, Complete_operation 8 0]
           (installed 4 (Some (Loop 2)) ex_idle) = Inr s' \<and> registry s' 4 [3]) \<and>
   (\<exists>s'. run_calls (root_yield 4)
           [Begin_await 7 3 5, Begin_await 8 6 9, Complete_operation 8 0, Complete_operation 7 0]
           (installed 4 (Some (Loop 2)) ex_idle) = Inr s' \<and> registry s' 4 [])"
proof -
  have i: "idle ex_idle" by (simp add: idle_def ex_idle_def)
  have d: "dom (uvreqs ex_idle) = {7, 8}" by (auto simp: ex_idle_def)
  have v2: "valid_calls (dom (uvreqs ex_idle)) [Begin_await 7 3 5, Begin_await 8 6 9]
      ([], Map.empty)"
    by (simp add: d spec_call_def)
  have v3: "valid_calls (dom (uvreqs ex_idle))
      [Begin_await 7 3 5, Begin_await 8 6 9, Complete_operation 8 0] ([], Map.empty)"
    by (simp add: d spec_call_def)
  have v4: "valid_calls (dom (uvreqs ex_idle))
      [Begin_await 7 3 5, Begin_await 8 6 9, Complete_operation 8 0, Complete_operation 7 0]
      ([], Map.empty)"
    by (simp add: d spec_call_def)
  have p2: "fst (spec_calls [Begin_await 7 3 5, Begin_await 8 6 9] ([], Map.empty)) = [6, 3]"
    by (simp add: spec_calls_def spec_call_def)
  have p3: "fst (spec_calls [Begin_await 7 3 5, Begin_await 8 6 9, Complete_operation 8 0]
      ([], Map.empty)) = [3]"
    by (simp add: spec_calls_def spec_call_def)
  have p4: "fst (spec_calls
      [Begin_await 7 3 5, Begin_await 8 6 9, Complete_operation 8 0, Complete_operation 7 0]
      ([], Map.empty)) = []"
    by (simp add: spec_calls_def spec_call_def)
  from registry_reflects_pending [OF i v2, of 4 "Some (Loop 2)"]
    registry_reflects_pending [OF i v3, of 4 "Some (Loop 2)"]
    registry_reflects_pending [OF i v4, of 4 "Some (Loop 2)"]
  show ?thesis unfolding p2 p3 p4 by blast
qed

section \<open>Completion resumes at most once\<close>

lemma async_request_unlink_effect:
  assumes n: "request_at s (Some n) = Some r"
    and pv: "\<And>p. req_prev r = Some p \<Longrightarrow> p \<noteq> n \<and> request_at s (Some p) \<noteq> None"
    and nx: "\<And>p x. req_prev r = Some p \<Longrightarrow> req_next r = Some x \<Longrightarrow>
       x \<noteq> n \<and> x \<noteq> p \<and> request_at s (Some x) \<noteq> None"
  shows "\<exists>s'. async_request_unlink s (Some n) = Inr s' \<and> links_only s s' \<and>
     (\<forall>q. links_at s' q =
        (if q = n then (if req_prev r = None then Some (links r) else Some (None, None))
         else if req_prev r = Some q
           then map_option (\<lambda>(nxt, prv). (req_next r, prv)) (links_at s q)
         else if req_prev r \<noteq> None \<and> req_next r = Some q
           then map_option (\<lambda>(nxt, prv). (nxt, req_prev r)) (links_at s q)
         else links_at s q))"
proof (cases "req_prev r")
  case None
  have "async_request_unlink s (Some n) = Inr s"
    using n None by (simp add: async_request_unlink_def)
  moreover have "links_at s n = Some (links r)" using n by (simp add: links_at_def)
  ultimately show ?thesis using None by auto
next
  case (Some p)
  have ln: "links_at s n = Some (req_next r, Some p)"
    using n Some by (simp add: links_at_def links_def)
  from pv [OF Some] have pn: "p \<noteq> n" and pl: "request_at s (Some p) \<noteq> None" by auto
  have nxok: "x \<noteq> n \<and> x \<noteq> p \<and> request_at s (Some x) \<noteq> None" if "req_next r = Some x" for x
    using nx [OF Some that] .
  from async_request_unlink_links [OF ln pn pl nxok] obtain s' where
    s': "async_request_unlink s (Some n) = Inr s'" "links_only s s'"
    and l: "\<And>q. links_at s' q =
        (if q = n then Some (None, None)
         else if q = p then map_option (\<lambda>(a, b). (req_next r, b)) (links_at s q)
         else if req_next r = Some q then map_option (\<lambda>(a, b). (a, Some p)) (links_at s q)
         else links_at s q)"
    by blast
  have "links_at s' q =
        (if q = n then (if req_prev r = None then Some (links r) else Some (None, None))
         else if req_prev r = Some q
           then map_option (\<lambda>(nxt, prv). (req_next r, prv)) (links_at s q)
         else if req_prev r \<noteq> None \<and> req_next r = Some q
           then map_option (\<lambda>(nxt, prv). (nxt, req_prev r)) (links_at s q)
         else links_at s q)" for q
    using Some by (auto simp: l)
  with s' show ?thesis by blast
qed

text \<open>
  C1. Take a libuv request whose \<open>data\<close> field points to a live request that points back
  to it and carries a continuation and a resumption strategy; if the request is linked,
  its neighbours are live nodes other than itself. Whatever the resumed computation does,
  the first call of \<open>async_req_resume\<close> is the call of the strategy, with the
  continuation, the local value, the libuv request and the status code captured from the
  request (the default strategy hands the continuation and the status code to
  \<open>lh_release_resume\<close>), in a store \<open>s4\<close> in which everything else is already done: the
  \<open>data\<close> field is null, the request is unlinked (its predecessor points to its
  successor and its successor back to its predecessor) and freed, and nothing else has
  changed. So the strategy runs last, and the resumed computation sees the back-reference
  cleared: in \<open>s4\<close> a further call of \<open>async_req_resume\<close> on the libuv request does
  nothing. With the recording engine the first call appends exactly one resumption to the
  trace and a second call changes nothing: the continuation is resumed exactly once.
\<close>

theorem complete_twice_resumes_once:
  assumes U: "uvreqs s u = Some U" and dt: "uv_data U = Some (Request a)"
    and r: "reqs s a = Some r" and bk: "req_uvreq r = Some (Uv_req u)"
    and f: "req_resumefun r = Some f" and k: "req_resume r = Some k"
    and pv: "\<And>p. req_prev r = Some p \<Longrightarrow> p \<noteq> Request a \<and> request_at s (Some p) \<noteq> None"
    and nx: "\<And>p x. req_prev r = Some p \<Longrightarrow> req_next r = Some x \<Longrightarrow>
       x \<noteq> Request a \<and> x \<noteq> p \<and> request_at s (Some x) \<noteq> None"
  shows "\<exists>s4.
      (\<forall>E. async_req_resume E (Some (Uv_req u)) err s =
         (case f of
            Async_resume_default \<Rightarrow>
              lh_release_resume E (Some k) (req_local r) (lh_value_int err) s4
          | Channel_async_req_resume \<Rightarrow>
              channel_async_req_resume E (Some k) (req_local r) (Some (Uv_req u)) err s4)) \<and>
      uvreqs s4 = (uvreqs s)(u \<mapsto> U\<lparr>uv_data := None\<rparr>) \<and>
      reqs s4 a = None \<and> dom (reqs s4) = dom (reqs s) - {a} \<and>
      (\<forall>q. links_at s4 q =
         (if q = Request a then None
          else if req_prev r = Some q
            then map_option (\<lambda>(nxt, prv). (req_next r, prv)) (links_at s q)
          else if req_prev r \<noteq> None \<and> req_next r = Some q
            then map_option (\<lambda>(nxt, prv). (nxt, req_prev r)) (links_at s q)
          else links_at s q)) \<and>
      (\<forall>q. q \<noteq> Some (Request a) \<longrightarrow>
         map_option payload (request_at s4 q) = map_option payload (request_at s q)) \<and>
      trace s4 = trace s \<and> implicit_cancel_scope s4 = implicit_cancel_scope s \<and>
      dom (locals s4) = dom (locals s) \<and>
      (\<forall>l. map_option local_loop (locals s4 l) = map_option local_loop (locals s l)) \<and>
      (\<forall>E err'. async_req_resume E (Some (Uv_req u)) err' s4 = Inr s4) \<and>
      (\<exists>s'. async_req_resume recording_engine (Some (Uv_req u)) err s = Inr s' \<and>
         trace s' = trace s @
           [case f of
              Async_resume_default \<Rightarrow> Release_resume (Some k) (req_local r) (lh_value_int err)
            | Channel_async_req_resume \<Rightarrow>
                Channel_req_resume (Some k) (req_local r) (Some (Uv_req u)) err] \<and>
         (\<forall>err'. async_req_resume recording_engine (Some (Uv_req u)) err' s' = Inr s'))"
proof -
  let ?n = "Request a" and ?uv = "Some (Uv_req u)"
  let ?s1 = "s\<lparr>uvreqs := (uvreqs s)(u \<mapsto> U\<lparr>uv_data := None\<rparr>)\<rparr>"
  let ?r2 = "r\<lparr>req_uvreq := None\<rparr>"
  from r have at: "request_at s (Some ?n) = Some r" by (simp add: request_at_def)
  then have at1: "request_at ?s1 (Some ?n) = Some r" by simp
  obtain s2 where s2: "update_request ?s1 (Some ?n) (\<lambda>q. q\<lparr>req_uvreq := None\<rparr>) = Inr s2"
    "request_at s2 = (request_at s)(Some ?n \<mapsto> ?r2)" "frame ?s1 s2"
    using update_requestE [OF at1, of "\<lambda>q. q\<lparr>req_uvreq := None\<rparr>"] by auto
  have l2: "links_at s2 q = links_at s q" for q
    using s2(2) at by (simp add: links_at_def)
  have at2: "request_at s2 (Some ?n) = Some ?r2" using s2(2) by simp
  have pv2: "p \<noteq> ?n \<and> request_at s2 (Some p) \<noteq> None" if "req_prev ?r2 = Some p" for p
    using pv [of p] that s2(2) by simp
  have nx2: "x \<noteq> ?n \<and> x \<noteq> p \<and> request_at s2 (Some x) \<noteq> None"
    if "req_prev ?r2 = Some p" "req_next ?r2 = Some x" for p x
    using nx [of p x] that s2(2) by simp
  from async_request_unlink_effect [OF at2 pv2 nx2] obtain s3 where
    s3: "async_request_unlink s2 (Some ?n) = Inr s3" "links_only s2 s3"
    and l3: "\<And>q. links_at s3 q =
        (if q = ?n then (if req_prev r = None then Some (links ?r2) else Some (None, None))
         else if req_prev r = Some q
           then map_option (\<lambda>(nxt, prv). (req_next r, prv)) (links_at s q)
         else if req_prev r \<noteq> None \<and> req_next r = Some q
           then map_option (\<lambda>(nxt, prv). (nxt, req_prev r)) (links_at s q)
         else links_at s q)"
    unfolding l2 by auto
  from s3(2) at2 obtain r3 where r3: "request_at s3 (Some ?n) = Some r3"
    "payload r3 = payload ?r2"
    by (rule links_only_at)
  from r3(2) f k have p3: "req_resumefun r3 = Some f" "req_resume r3 = Some k"
    "req_local r3 = req_local r"
    by (simp_all add: payload_def)
  from r3(1) have reqs3: "reqs s3 a = Some r3" by (simp add: request_at_def)
  let ?s4 = "s3\<lparr>reqs := (reqs s3)(a := None)\<rparr>"
  have res: "async_request_resume E (Some ?n) ?uv err s =
      call_resumefun E (Some f) (Some k) (req_local r) ?uv err ?s4" for E
    unfolding async_request_resume_def
    by (simp only: load_request_eq [OF at] load_request_eq [OF r3(1)] bk bind_f_simps
        assert_c_simps simp_thms option.simps if_True set_uv_data_eq [OF U] s2(1) s3(1)
        free_request_eq [OF reqs3] p3)
  have c1: "\<forall>E. async_req_resume E ?uv err s =
         (case f of
            Async_resume_default \<Rightarrow>
              lh_release_resume E (Some k) (req_local r) (lh_value_int err) ?s4
          | Channel_async_req_resume \<Rightarrow>
              channel_async_req_resume E (Some k) (req_local r) ?uv err ?s4)"
    using U dt res
    by (cases f)
       (simp_all add: async_req_resume_def load_uvreq_def call_resumefun_def
          async_resume_default_def)
  have fr: "uvreqs s3 = (uvreqs s)(u \<mapsto> U\<lparr>uv_data := None\<rparr>)" "dom (reqs s3) = dom (reqs s)"
    "trace s3 = trace s" "implicit_cancel_scope s3 = implicit_cancel_scope s"
    "dom (locals s3) = dom (locals s)"
    "\<And>l. map_option local_loop (locals s3 l) = map_option local_loop (locals s l)"
    using s2(3) s3(2) by (simp_all add: links_only_def frame_def)
  have c2: "uvreqs ?s4 = (uvreqs s)(u \<mapsto> U\<lparr>uv_data := None\<rparr>)" using fr(1) by simp
  have c3: "reqs ?s4 a = None" by simp
  have c4: "dom (reqs ?s4) = dom (reqs s) - {a}" using fr(2) by auto
  have l4: "links_at ?s4 q = (if q = ?n then None else links_at s3 q)" for q
    by (cases q) (auto simp: links_at_def request_at_def)
  have c5: "\<forall>q. links_at ?s4 q =
         (if q = ?n then None
          else if req_prev r = Some q
            then map_option (\<lambda>(nxt, prv). (req_next r, prv)) (links_at s q)
          else if req_prev r \<noteq> None \<and> req_next r = Some q
            then map_option (\<lambda>(nxt, prv). (nxt, req_prev r)) (links_at s q)
          else links_at s q)"
    by (simp add: l4 l3)
  have c6: "\<forall>q. q \<noteq> Some ?n \<longrightarrow>
         map_option payload (request_at ?s4 q) = map_option payload (request_at s q)"
  proof (intro allI impI)
    fix q assume q: "q \<noteq> Some ?n"
    have "request_at ?s4 q = request_at s3 q"
      using q by (auto simp: request_at_def split: option.splits pointer.splits)
    moreover have "map_option payload (request_at s3 q) = map_option payload (request_at s2 q)"
      using s3(2) by (simp add: links_only_def)
    moreover have "request_at s2 q = request_at s q" using q s2(2) by simp
    ultimately show "map_option payload (request_at ?s4 q) = map_option payload (request_at s q)"
      by simp
  qed
  have c7: "trace ?s4 = trace s" using fr(3) by simp
  have c8: "implicit_cancel_scope ?s4 = implicit_cancel_scope s" using fr(4) by simp
  have c9: "dom (locals ?s4) = dom (locals s)" using fr(5) by simp
  have c10: "\<forall>l. map_option local_loop (locals ?s4 l) = map_option local_loop (locals s l)"
    using fr(6) by simp
  have c11: "\<forall>E err'. async_req_resume E ?uv err' ?s4 = Inr ?s4"
    by (intro allI, rule async_req_resume_null [where U = "U\<lparr>uv_data := None\<rparr>"])
       (simp_all add: fr(1))
  let ?ev = "case f of
              Async_resume_default \<Rightarrow> Release_resume (Some k) (req_local r) (lh_value_int err)
            | Channel_async_req_resume \<Rightarrow>
                Channel_req_resume (Some k) (req_local r) ?uv err"
  let ?s5 = "?s4\<lparr>trace := trace s @ [?ev]\<rparr>"
  have rec: "async_req_resume recording_engine ?uv err s = Inr ?s5"
    using c1 c7 by (cases f) (simp_all add: recording_engine_def)
  have rec2: "\<forall>err'. async_req_resume recording_engine ?uv err' ?s5 = Inr ?s5"
    by (intro allI, rule async_req_resume_null [where U = "U\<lparr>uv_data := None\<rparr>"])
       (simp_all add: fr(1))
  have c12: "\<exists>s'. async_req_resume recording_engine ?uv err s = Inr s' \<and>
         trace s' = trace s @ [?ev] \<and>
         (\<forall>err'. async_req_resume recording_engine ?uv err' s' = Inr s')"
    using rec rec2 by (intro exI [of _ ?s5]) simp
  show ?thesis
    by (rule exI [of _ ?s4]) (intro conjI c1 c2 c3 c4 c5 c6 c7 c8 c9 c10 c11 c12)
qed

theorem complete_twice_resumes_once_witness:
  "\<exists>s4. async_req_resume recording_engine (Some (Uv_req 7)) (- 4) ex_pending =
         Inr (s4\<lparr>trace := [Release_resume (Some (Resume 5)) (Value_ptr (Local 4))
                               (lh_value_int (- 4))]\<rparr>) \<and>
      async_req_resume
        \<lparr>lh_release_resume = (\<lambda>r local_v res s.
           if (case uvreqs s 7 of None \<Rightarrow> False | Some U \<Rightarrow> uv_data U = None) \<and>
              reqs s 3 = None \<and> registry s 4 []
           then Inr s else Inl Assert_failed),
         channel_async_req_resume = (\<lambda>r local_v req err s. Inl Assert_failed)\<rparr>
        (Some (Uv_req 7)) (- 4) ex_pending = Inr s4 \<and>
      registry s4 4 [] \<and> reqs s4 3 = None \<and>
      async_req_resume recording_engine (Some (Uv_req 7)) (- 4) s4 = Inr s4"
proof -
  let ?r = "zero_request\<lparr>req_prev := Some (Sentinel 4), req_resume := Some (Resume 5),
                  req_local := Value_ptr (Local 4), req_uvreq := Some (Uv_req 7),
                  req_resumefun := Some Async_resume_default\<rparr>"
  have 1: "uvreqs ex_pending 7 = Some \<lparr>uv_data = Some (Request 3)\<rparr>"
    by (simp add: ex_pending_def)
  have 2: "uv_data \<lparr>uv_data = Some (Request 3)\<rparr> = Some (Request 3)" by simp
  have 3: "reqs ex_pending 3 = Some ?r" by (simp add: ex_pending_def)
  have 4: "req_uvreq ?r = Some (Uv_req 7)" by simp
  have 5: "req_resumefun ?r = Some Async_resume_default" by simp
  have 6: "req_resume ?r = Some (Resume 5)" by simp
  have 7: "p \<noteq> Request 3 \<and> request_at ex_pending (Some p) \<noteq> None" if "req_prev ?r = Some p" for p
    using that by (auto simp: ex_pending_def request_at_def)
  have 8: "x \<noteq> Request 3 \<and> x \<noteq> p \<and> request_at ex_pending (Some x) \<noteq> None"
    if "req_prev ?r = Some p" "req_next ?r = Some x" for p x
    using that by (simp add: zero_request_def)
  have t: "trace ex_pending = []" by (simp add: ex_pending_def)
  have h: "links_at ex_pending (Sentinel 4) = Some (Some (Request 3), None)"
    by (simp add: links_at_def links_def ex_pending_def request_at_def zero_request_def)
  from complete_twice_resumes_once [OF 1 2 3 4 5 6 7 8, of "- 4"] obtain s4 where
    run: "\<And>E. async_req_resume E (Some (Uv_req 7)) (- 4) ex_pending =
        lh_release_resume E (Some (Resume 5)) (req_local ?r) (lh_value_int (- 4)) s4"
    and uv4: "uvreqs s4 = (uvreqs ex_pending)(7 \<mapsto> \<lparr>uv_data = Some (Request 3)\<rparr>\<lparr>uv_data := None\<rparr>)"
    and gone: "reqs s4 3 = None"
    and l4: "\<And>q. links_at s4 q =
         (if q = Request 3 then None
          else if req_prev ?r = Some q
            then map_option (\<lambda>(nxt, prv). (req_next ?r, prv)) (links_at ex_pending q)
          else if req_prev ?r \<noteq> None \<and> req_next ?r = Some q
            then map_option (\<lambda>(nxt, prv). (nxt, req_prev ?r)) (links_at ex_pending q)
          else links_at ex_pending q)"
    and tr: "trace s4 = trace ex_pending"
    and again: "\<And>E err'. async_req_resume E (Some (Uv_req 7)) err' s4 = Inr s4"
    by auto
  have "links_at s4 (Sentinel 4) = Some (None, None)"
    by (simp add: l4 h zero_request_def)
  then have reg: "registry s4 4 []"
    by (simp add: registry_chain seg_Cons_links)
  have "async_req_resume recording_engine (Some (Uv_req 7)) (- 4) ex_pending =
      Inr (s4\<lparr>trace := [Release_resume (Some (Resume 5)) (Value_ptr (Local 4))
                               (lh_value_int (- 4))]\<rparr>)"
    by (simp add: run recording_engine_def tr t)
  moreover have "async_req_resume
        \<lparr>lh_release_resume = (\<lambda>r local_v res s.
           if (case uvreqs s 7 of None \<Rightarrow> False | Some U \<Rightarrow> uv_data U = None) \<and>
              reqs s 3 = None \<and> registry s 4 []
           then Inr s else Inl Assert_failed),
         channel_async_req_resume = (\<lambda>r local_v req err s. Inl Assert_failed)\<rparr>
        (Some (Uv_req 7)) (- 4) ex_pending = Inr s4"
    by (simp add: run uv4 gone reg)
  ultimately show ?thesis using reg gone again by blast
qed

section \<open>Status codes and thrown failures\<close>

text \<open>
  C5. The default strategy hands the status code, as an \<open>lh_value\<close>, to
  \<open>lh_release_resume\<close>. When the await yield of \<open>asyncx_await\<close> returns with that value
  (and the registration before it returns), \<open>asyncx_await\<close> returns the status code
  unchanged, negative or not: its outcome is a returned value, never an exception.
  \<open>async_await\<close>, which passes the code to \<open>check_uv_err\<close>, throws exactly when the code
  is negative, and the exception carries the code and the string \<open>uv_strerror\<close> gives
  for it.
\<close>

theorem await_status_code:
  assumes U: "uvreqs s u = Some U"
    and reg: "\<And>s. \<exists>v s'.
       Y k Async_req_register (lh_value_ptr (Some (Request a))) s = Inr (Resumed v, s')"
    and aw: "\<And>s. \<exists>s'.
       Y k Async_req_await (lh_value_ptr (Some (Request a))) s =
         Inr (Resumed (lh_value_int err), s')"
  shows "(\<exists>s'. asyncx_await Y k (Some (Uv_req u)) a s = Inr (Resumed (Some err), s') \<and>
       async_await uv_strerror Y k (Some (Uv_req u)) a s =
         Inr (Resumed (Some (if sint err < 0
                             then Inl \<lparr>exn_code = err, exn_msg = uv_strerror err\<rparr>
                             else Inr ())), s')) \<and>
     (\<forall>E. async_resume_default E (Some r) local_v uvreq err s =
        lh_release_resume E (Some r) local_v (lh_value_int err) s)"
proof -
  let ?n = "Request a" and ?uv = "Some (Uv_req u)"
  let ?s0 = "s\<lparr>reqs := (reqs s)(a \<mapsto> zero_request)\<rparr>"
  let ?s1 = "?s0\<lparr>uvreqs := (uvreqs ?s0)(u \<mapsto> U\<lparr>uv_data := Some ?n\<rparr>)\<rparr>"
  have sd: "set_uv_data ?s0 ?uv (Some ?n) = Inr ?s1"
    using U by (simp add: set_uv_data_def)
  have n1: "request_at ?s1 (Some ?n) = Some zero_request"
    by (simp add: request_at_alloc)
  obtain s2 where s2: "update_request ?s1 (Some ?n) (\<lambda>q. q\<lparr>req_uvreq := ?uv\<rparr>) = Inr s2"
    "request_at s2 = (request_at ?s1)(Some ?n \<mapsto> zero_request\<lparr>req_uvreq := ?uv\<rparr>)"
    using update_requestE [OF n1, of "\<lambda>q. q\<lparr>req_uvreq := ?uv\<rparr>"] by auto
  define cs where "cs = cancel_scope (implicit_cancel_scope s2)"
  have n2: "request_at s2 (Some ?n) = Some (zero_request\<lparr>req_uvreq := ?uv\<rparr>)"
    using s2(2) by simp
  obtain s3 where s3: "update_request s2 (Some ?n) (\<lambda>q. q\<lparr>req_scope := cs\<rparr>) = Inr s3"
    using update_requestE [OF n2, of "\<lambda>q. q\<lparr>req_scope := cs\<rparr>"] by auto
  from reg obtain v s4 where
    s4: "Y k Async_req_register (lh_value_ptr (Some ?n)) s3 = Inr (Resumed v, s4)" by blast
  from aw obtain s5 where
    s5: "Y k Async_req_await (lh_value_ptr (Some ?n)) s4 = Inr (Resumed (lh_value_int err), s5)"
    by blast
  have alloc: "async_request_alloc Y k ?uv a s = Inr (Resumed (Some ?n), s4)"
    unfolding async_request_alloc_def Let_def
    by (simp only: sd bind_f_simps s2(1) cs_def [symmetric] s3 async_req_register_def s4)
       (simp add: bind_y_def)
  have await: "async_req_await Y k (Some ?n) s4 = Inr (Resumed (Some err), s5)"
    by (simp add: async_req_await_def s5 bind_y_def async_req_await_return_def lh_int_value_int)
  have x: "asyncx_await Y k ?uv a s = Inr (Resumed (Some err), s5)"
    by (simp add: asyncx_await_def alloc bind_y_def await)
  have y: "async_await uv_strerror Y k ?uv a s =
         Inr (Resumed (Some (if sint err < 0
                             then Inl \<lparr>exn_code = err, exn_msg = uv_strerror err\<rparr>
                             else Inr ())), s5)"
    by (simp add: async_await_def x bind_y_def check_uv_err_def lh_throw_def
        lh_exception_alloc_strdup_def)
  have z: "\<forall>E. async_resume_default E (Some r) local_v uvreq err s =
        lh_release_resume E (Some r) local_v (lh_value_int err) s"
    by (simp add: async_resume_default_def)
  from x y z show ?thesis by blast
qed

theorem await_status_code_witness:
  "(\<exists>s'. asyncx_await
           (\<lambda>k t arg s. Inr (Resumed (if t = Async_req_await then lh_value_int (- 4)
                                        else lh_value_null), s))
           (Some (Resume 5)) (Some (Uv_req 7)) 3 ex_idle = Inr (Resumed (Some (- 4)), s') \<and>
         async_await (\<lambda>e. if e = - 4 then ''interrupted system call'' else ''unknown'')
           (\<lambda>k t arg s. Inr (Resumed (if t = Async_req_await then lh_value_int (- 4)
                                        else lh_value_null), s))
           (Some (Resume 5)) (Some (Uv_req 7)) 3 ex_idle =
           Inr (Resumed (Some (Inl \<lparr>exn_code = - 4, exn_msg = ''interrupted system call''\<rparr>)),
                s')) \<and>
   (\<exists>s'. async_await (\<lambda>e. ''unknown'')
           (\<lambda>k t arg s. Inr (Resumed (if t = Async_req_await then lh_value_int 0
                                        else lh_value_null), s))
           (Some (Resume 5)) (Some (Uv_req 7)) 3 ex_idle = Inr (Resumed (Some (Inr ())), s'))"
proof -
  have U: "uvreqs ex_idle 7 = Some \<lparr>uv_data = None\<rparr>" by (simp add: ex_idle_def)
  let ?Y = "\<lambda>e (k :: pointer option) t (arg :: lh_value) (s :: state).
      Inr (Resumed (if t = Async_req_await then lh_value_int e else lh_value_null), s)
        :: fault + (lh_value yield_result \<times> state)"
  have reg: "\<exists>v s'. ?Y e k Async_req_register arg s = Inr (Resumed v, s')" for e k arg s
    by simp
  have aw: "\<exists>s'. ?Y e k Async_req_await arg s = Inr (Resumed (lh_value_int e), s')" for e k arg s
    by simp
  from await_status_code [of ex_idle 7 _ "?Y (- 4)" "Some (Resume 5)" 3 "- 4"
      "\<lambda>e. if e = - 4 then ''interrupted system call'' else ''unknown''", OF U reg aw,
      THEN conjunct1]
    await_status_code [of ex_idle 7 _ "?Y 0" "Some (Resume 5)" 3 0 "\<lambda>e. ''unknown''",
      OF U reg aw, THEN conjunct1]
  show ?thesis by auto
qed

end
